theory Spec2Isabelle
  imports Main "HOL-Library.Word" "HOL-Library.Monad_Syntax"
begin

unbundle bit_operations_syntax

section \<open>Data model of LED\_Matrix.cpp\<close>

text \<open>
  \<^verbatim>\<open>uint8_t\<close>, \<open>int8_t\<close> are \<open>8 word\<close> (read with \<open>uint\<close> resp. \<open>sint\<close>),
  \<^verbatim>\<open>int16_t\<close>, \<open>uint16_t\<close> are \<open>16 word\<close>, \<^verbatim>\<open>uint32_t\<close> is \<open>32 word\<close>.
  An expression the C++ evaluates after integer promotion is an \<open>int\<close>; each
  assignment back to a narrow variable is the word operation, which wraps.
  \<^verbatim>\<open>GPIO_pin_t\<close> is declared in LED\_Matrix.h; only equality of pins is used.
\<close>

type_synonym GPIO_pin_t = nat

datatype level = LOW | HIGH

text \<open>
  The pin tables are arrays handed to \<^verbatim>\<open>begin\<close>. A pin the code writes is named by
  the table and the index it is read from: \<open>ROW_PIN i\<close> is
  \<^verbatim>\<open>DirectMatrix_ROW_PINS[i]\<close>, and so on. The index is the promoted \<open>int\<close>, so
  an access outside the table stays visible.
\<close>

datatype pin_slot = ROW_PIN int | COL_PIN int | SR_PIN int

text \<open>What the code does to the hardware, in program order.\<close>

datatype event =
    PinMode_OUTPUT pin_slot
  | DigitalWrite pin_slot level
  | Timer1_initialize "32 word"
  | Timer1_attachInterrupt
  | Timer1_setPeriod "32 word"

text \<open>
  The macros of LED\_Matrix.h that the source uses and that are not part of it:
  the sentinel \<^verbatim>\<open>DINV\<close> and the indices \<^verbatim>\<open>DATA\<close> and \<^verbatim>\<open>CLK\<close> into the
  shift register pin table. They are parameters of the model.
\<close>

record LED_Matrix_h =
  DINV :: GPIO_pin_t
  DATA :: int
  CLK :: int

text \<open>
  Modelled from the spec: \<^verbatim>\<open>DirectMatrix_PWM_LEVELS\<close> is a macro of LED\_Matrix.h;
  section 4.3 resets the plane mask when it reaches 16.
\<close>

definition DirectMatrix_PWM_LEVELS :: "8 word" where
  "DirectMatrix_PWM_LEVELS = 16"

text \<open>
  The members \<^verbatim>\<open>_num_rows\<close>, \<^verbatim>\<open>_num_cols\<close> and the globals shared with the ISR.
  \<open>MATRIX\<close> is the memory at the pointer \<^verbatim>\<open>DirectMatrix_MATRIX\<close>, by cell offset;
  the allocated framebuffer is the cells \<open>0 ..< num_rows * num_cols\<close>.
  \<open>SR_PINS\<close> holds the contents of the shift register pin table, which the code
  compares with the sentinel.
\<close>

record DirectMatrix =
  num_rows :: "8 word"
  num_cols :: "8 word"
  ARRAY_ROWS :: "8 word"
  ARRAY_COLS :: "8 word"
  NUM_COLORS :: "8 word"
  MATRIX :: "int \<Rightarrow> 16 word"
  SR_PINS :: "int \<Rightarrow> GPIO_pin_t"
  ISR_FREQ :: "nat \<Rightarrow> 32 word"

text \<open>The number of cells \<^verbatim>\<open>malloc(num_rows * num_cols * 2)\<close> allocates.\<close>

definition allocated_cells :: "DirectMatrix \<Rightarrow> int" where
  "allocated_cells m = uint (num_rows m) * uint (num_cols m)"

text \<open>
  The constructor. \<open>heap\<close> is the result of \<^verbatim>\<open>malloc\<close>: \<open>None\<close> for a null
  pointer, else the (uninitialised) memory. On a null pointer the constructor prints
  forever and never returns, which is the value \<open>None\<close>. \<open>g0\<close> is the state of the
  globals before.
\<close>

definition DirectMatrix_ctor ::
  "DirectMatrix \<Rightarrow> (int \<Rightarrow> 16 word) option \<Rightarrow> 8 word \<Rightarrow> 8 word \<Rightarrow> 8 word \<Rightarrow> DirectMatrix option" where
  "DirectMatrix_ctor g0 heap rows cols colors =
     (case heap of
        None \<Rightarrow> None
      | Some mem \<Rightarrow>
          Some (g0\<lparr>num_rows := rows, num_cols := cols,
                   ARRAY_ROWS := rows, ARRAY_COLS := cols, NUM_COLORS := colors,
                   MATRIX := mem\<rparr>))"

section \<open>Drawing: drawPixel\<close>

text \<open>
  \<^verbatim>\<open>getRotation()\<close> belongs to Adafruit\_GFX; its result is the parameter
  \<open>rotation\<close>. The \<^verbatim>\<open>switch\<close> has cases 1, 2 and 3 and no default.
\<close>

definition drawPixel_rotate :: "8 word \<Rightarrow> 16 word \<times> 16 word \<Rightarrow> 16 word \<times> 16 word" where
  "drawPixel_rotate rotation p =
     (if rotation = 1 then
        (let (x, y) = prod.swap p; x = 8 - x - 1 in (x, y))
      else if rotation = 2 then
        (let (x, y) = p; x = 8 - x - 1; y = 8 - y - 1 in (x, y))
      else if rotation = 3 then
        (let (x, y) = prod.swap p; y = 8 - y - 1 in (x, y))
      else p)"

text \<open>
  The cell offset \<^verbatim>\<open>y * _num_cols + x\<close> that \<^verbatim>\<open>drawPixel\<close> stores to, or \<open>None\<close>
  when one of the two bounds checks returns early.
\<close>

definition drawPixel_target :: "8 word \<Rightarrow> 8 word \<Rightarrow> 16 word \<Rightarrow> 16 word \<Rightarrow> int option" where
  "drawPixel_target rotation cols x y =
     (if sint y < 0 \<or> 8 \<le> sint y then None
      else if sint x < 0 \<or> 8 \<le> sint x then None
      else (let (x, y) = drawPixel_rotate rotation (x, y)
            in Some (sint y * uint cols + sint x)))"

definition drawPixel :: "DirectMatrix \<Rightarrow> 8 word \<Rightarrow> 16 word \<Rightarrow> 16 word \<Rightarrow> 16 word \<Rightarrow> DirectMatrix" where
  "drawPixel m rotation x y color =
     (case drawPixel_target rotation (num_cols m) x y of
        None \<Rightarrow> m
      | Some i \<Rightarrow> m\<lparr>MATRIX := (MATRIX m)(i := color)\<rparr>)"

text \<open>
  The rotation formulas in the words of the specification, on mathematical
  coordinates: 90 degrees = swap then \<open>x \<leftarrow> 7 - x\<close>; 180 degrees = \<open>x \<leftarrow> 7 - x\<close>,
  \<open>y \<leftarrow> 7 - y\<close>; 270 degrees = swap then \<open>y \<leftarrow> 7 - y\<close>.
\<close>

definition spec_rotate :: "nat \<Rightarrow> int \<times> int \<Rightarrow> int \<times> int" where
  "spec_rotate r p =
     (case p of (x, y) \<Rightarrow>
        if r = 1 then (7 - y, x)
        else if r = 2 then (7 - x, 7 - y)
        else if r = 3 then (y, 7 - x)
        else (x, y))"

definition in_bounds8 :: "16 word \<Rightarrow> 16 word \<Rightarrow> bool" where
  "in_bounds8 x y \<longleftrightarrow> 0 \<le> sint x \<and> sint x < 8 \<and> 0 \<le> sint y \<and> sint y < 8"

section \<open>clear\<close>

text \<open>
  \<^verbatim>\<open>for (uint8_t i=0; i<_num_rows * _num_cols; i++) DirectMatrix_MATRIX[i] = 0;\<close>
  The counter is 8 bits wide and the bound is the promoted product, so the loop need
  not terminate: not returning is the value \<open>None\<close>.
\<close>

partial_function (option) clear_loop :: "int \<Rightarrow> 8 word \<Rightarrow> (int \<Rightarrow> 16 word) \<Rightarrow> (int \<Rightarrow> 16 word) option" where
  "clear_loop bound i mem =
     (if uint i < bound then clear_loop bound (i + 1) (mem(uint i := 0)) else Some mem)"

declare clear_loop.simps [code]

definition clear :: "DirectMatrix \<Rightarrow> DirectMatrix option" where
  "clear m =
     map_option (\<lambda>mem. m\<lparr>MATRIX := mem\<rparr>)
       (clear_loop (uint (num_rows m) * uint (num_cols m)) 0 (MATRIX m))"

section \<open>The refresh interrupt: DirectMatrix\_RefreshPWMLine\<close>

text \<open>
  The function statics \<^verbatim>\<open>row\<close>, \<^verbatim>\<open>pwm\<close> and \<^verbatim>\<open>isr_freq_offset\<close>, all
  \<^verbatim>\<open>uint8_t\<close>. The clock samples (\<^verbatim>\<open>time\<close>, the latency and the runtime) read
  \<^verbatim>\<open>micros()\<close> and touch nothing else, so they are left out.
\<close>

record isr_static =
  row :: "8 word"
  pwm :: "8 word"
  isr_freq_offset :: "8 word"

definition isr_init :: isr_static where
  "isr_init = \<lparr>row = 0, pwm = 1, isr_freq_offset = 0\<rparr>"

text \<open>\<^verbatim>\<open>(DirectMatrix_MATRIX[row * DirectMatrix_ARRAY_COLS + col] & pwm_shifted)?HIGH:LOW\<close>\<close>

definition cell_level :: "DirectMatrix \<Rightarrow> isr_static \<Rightarrow> 16 word \<Rightarrow> int \<Rightarrow> level" where
  "cell_level g s pwm_shifted col =
     (if MATRIX g (uint (row s) * uint (ARRAY_COLS g) + col) AND pwm_shifted \<noteq> 0
      then HIGH else LOW)"

text \<open>
  The column loop of a direct colour:
  \<^verbatim>\<open>for (int8_t col = 0; col <= DirectMatrix_ARRAY_COLS - 1; col++)\<close>.
  The counter is a signed byte compared with a promoted \<open>int\<close>; \<open>col + 1\<close> wraps
  from 127 to -128 (the conversion back to \<^verbatim>\<open>int8_t\<close>).
\<close>

partial_function (option) direct_cols ::
  "DirectMatrix \<Rightarrow> isr_static \<Rightarrow> 8 word \<Rightarrow> 16 word \<Rightarrow> 8 word \<Rightarrow> event list \<Rightarrow> event list option" where
  "direct_cols g s col_pin_offset pwm_shifted col out =
     (if sint col \<le> uint (ARRAY_COLS g) - 1 then
        direct_cols g s col_pin_offset pwm_shifted (col + 1)
          (out @ [DigitalWrite (COL_PIN (sint col + sint col_pin_offset))
                    (cell_level g s pwm_shifted (sint col))])
      else Some out)"

declare direct_cols.simps [code]

text \<open>The column loop of a colour behind a shift register: one clocked bit per column.\<close>

partial_function (option) sr_cols ::
  "LED_Matrix_h \<Rightarrow> DirectMatrix \<Rightarrow> isr_static \<Rightarrow> 16 word \<Rightarrow> 8 word \<Rightarrow> event list \<Rightarrow> event list option" where
  "sr_cols h g s pwm_shifted col out =
     (if sint col \<le> uint (ARRAY_COLS g) - 1 then
        sr_cols h g s pwm_shifted (col + 1)
          (out @ [DigitalWrite (SR_PIN (CLK h)) LOW,
                  DigitalWrite (SR_PIN (DATA h)) (cell_level g s pwm_shifted (sint col)),
                  DigitalWrite (SR_PIN (CLK h)) HIGH])
      else Some out)"

declare sr_cols.simps [code]

text \<open>
  \<^verbatim>\<open>for (int8_t color = 0; color < DirectMatrix_NUM_COLORS; color++)\<close>, with
  \<^verbatim>\<open>pwm_shifted <<= 4\<close> (16 bits) and \<^verbatim>\<open>col_pin_offset += DirectMatrix_ARRAY_COLS\<close>
  (a signed byte) at the end of each round.
\<close>

partial_function (option) color_loop ::
  "LED_Matrix_h \<Rightarrow> DirectMatrix \<Rightarrow> isr_static \<Rightarrow> 8 word \<Rightarrow> 8 word \<Rightarrow> 16 word \<Rightarrow> event list \<Rightarrow> event list option" where
  "color_loop h g s color col_pin_offset pwm_shifted out =
     (if sint color < uint (NUM_COLORS g) then
        do {
          out \<leftarrow> (if SR_PINS g (sint color) = DINV h then
                    direct_cols g s col_pin_offset pwm_shifted 0 out
                  else
                    do {
                      out \<leftarrow> sr_cols h g s pwm_shifted 0
                               (out @ [DigitalWrite (SR_PIN (sint color)) LOW]);
                      Some (out @ [DigitalWrite (SR_PIN (sint color)) HIGH])
                    });
          color_loop h g s (color + 1) (col_pin_offset + ARRAY_COLS g)
            (push_bit 4 pwm_shifted) out
        }
      else Some out)"

declare color_loop.simps [code]

text \<open>The end of the ISR: \<^verbatim>\<open>row++\<close> and the step to the next bit plane.\<close>

definition isr_advance :: "DirectMatrix \<Rightarrow> isr_static \<Rightarrow> isr_static" where
  "isr_advance g s =
     (let s = s\<lparr>row := row s + 1\<rparr> in
      if row s \<ge> ARRAY_ROWS g then
        (let s = s\<lparr>row := 0, pwm := push_bit 1 (pwm s),
                    isr_freq_offset := isr_freq_offset s + 1\<rparr> in
         if pwm s \<ge> DirectMatrix_PWM_LEVELS then s\<lparr>pwm := 1, isr_freq_offset := 0\<rparr>
         else s)
      else s)"

text \<open>
  One invocation: the events it emits and the statics it leaves, or \<open>None\<close> when it
  does not return. \<^verbatim>\<open>oldrow\<close> is an \<^verbatim>\<open>int8_t\<close>.
\<close>

definition DirectMatrix_RefreshPWMLine ::
  "LED_Matrix_h \<Rightarrow> DirectMatrix \<Rightarrow> isr_static \<Rightarrow> (event list \<times> isr_static) option" where
  "DirectMatrix_RefreshPWMLine h g s =
     (let (out, oldrow) =
            (if row s = 0 then
               ([Timer1_setPeriod (ISR_FREQ g (unat (isr_freq_offset s)))], ARRAY_ROWS g - 1)
             else ([], row s - 1));
          out = out @ [DigitalWrite (ROW_PIN (sint oldrow)) HIGH]
      in do {
           out \<leftarrow> color_loop h g s 0 0 (ucast (pwm s)) out;
           Some (out @ [DigitalWrite (ROW_PIN (uint (row s))) LOW], isr_advance g s)
         })"

text \<open>
  The timer firing \<open>n\<close> times in a row: for each invocation the statics it started
  from and the events it emitted, and the statics at the end.
\<close>

fun run_ISR ::
  "LED_Matrix_h \<Rightarrow> DirectMatrix \<Rightarrow> nat \<Rightarrow> isr_static \<Rightarrow> ((isr_static \<times> event list) list \<times> isr_static) option" where
  "run_ISR h g 0 s = Some ([], s)"
| "run_ISR h g (Suc n) s =
     do {
       (out, s') \<leftarrow> DirectMatrix_RefreshPWMLine h g s;
       (rest, s'') \<leftarrow> run_ISR h g n s';
       Some ((s, out) # rest, s'')
     }"

section \<open>begin\<close>

text \<open>
  \<^verbatim>\<open>for (uint8_t i = 0; i < _num_rows; i++)\<close> and the same loop over
  \<^verbatim>\<open>_num_cols\<close>: the counter stays below an 8-bit bound, so both terminate.
\<close>

function begin_rows :: "8 word \<Rightarrow> 8 word \<Rightarrow> event list" where
  "begin_rows n i =
     (if i < n then
        [PinMode_OUTPUT (ROW_PIN (uint i)), DigitalWrite (ROW_PIN (uint i)) HIGH]
        @ begin_rows n (i + 1)
      else [])"
  by pat_completeness auto
termination
proof (relation "measure (\<lambda>(n, i). unat n - unat i)")
  show "wf (measure (\<lambda>(n :: 8 word, i :: 8 word). unat n - unat i))" by simp
next
  fix n i :: "8 word"
  assume "i < n"
  then have "unat i < unat n" by (simp add: word_less_nat_alt)
  moreover from this have "unat (i + 1) = unat i + 1"
    using unsigned_less[of n, where ?'a = nat] by (simp add: unat_word_ariths)
  ultimately show "((n, i + 1), (n, i)) \<in> measure (\<lambda>(n, i). unat n - unat i)" by simp
qed

function begin_cols :: "8 word \<Rightarrow> 8 word \<Rightarrow> event list" where
  "begin_cols n i =
     (if i < n then
        [PinMode_OUTPUT (COL_PIN (uint i)), DigitalWrite (COL_PIN (uint i)) LOW]
        @ begin_cols n (i + 1)
      else [])"
  by pat_completeness auto
termination
proof (relation "measure (\<lambda>(n, i). unat n - unat i)")
  show "wf (measure (\<lambda>(n :: 8 word, i :: 8 word). unat n - unat i))" by simp
next
  fix n i :: "8 word"
  assume "i < n"
  then have "unat i < unat n" by (simp add: word_less_nat_alt)
  moreover from this have "unat (i + 1) = unat i + 1"
    using unsigned_less[of n, where ?'a = nat] by (simp add: unat_word_ariths)
  ultimately show "((n, i + 1), (n, i)) \<in> measure (\<lambda>(n, i). unat n - unat i)" by simp
qed

text \<open>
  The pre-clocking of one shift register:
  \<^verbatim>\<open>for (uint8_t i = 0; i <= _num_rows; i++)\<close>, which need not terminate.
\<close>

partial_function (option) begin_sr_clock ::
  "LED_Matrix_h \<Rightarrow> 8 word \<Rightarrow> 8 word \<Rightarrow> event list \<Rightarrow> event list option" where
  "begin_sr_clock h n i out =
     (if i \<le> n then
        begin_sr_clock h n (i + 1)
          (out @ [DigitalWrite (SR_PIN (CLK h)) LOW,
                  DigitalWrite (SR_PIN (DATA h)) (if i AND 1 \<noteq> 0 then HIGH else LOW),
                  DigitalWrite (SR_PIN (CLK h)) HIGH])
      else Some out)"

declare begin_sr_clock.simps [code]

text \<open>
  \<^verbatim>\<open>for (uint8_t pin = 0; pin < 3; pin++)\<close>: the recursion runs over the values
  \<open>[0, 1, 2]\<close> of \<^verbatim>\<open>pin\<close>; \<^verbatim>\<open>continue\<close> goes on with the rest.
\<close>

fun begin_sr :: "LED_Matrix_h \<Rightarrow> DirectMatrix \<Rightarrow> int list \<Rightarrow> event list \<Rightarrow> event list option" where
  "begin_sr h m [] out = Some out"
| "begin_sr h m (pin # pins) out =
     (if SR_PINS m pin = 255 then begin_sr h m pins out
      else
        do {
          out \<leftarrow> begin_sr_clock h (num_rows m) 0
                   (out @ [PinMode_OUTPUT (SR_PIN pin),
                           PinMode_OUTPUT (SR_PIN (DATA h)),
                           PinMode_OUTPUT (SR_PIN (CLK h)),
                           DigitalWrite (SR_PIN pin) LOW]);
          begin_sr h m pins (out @ [DigitalWrite (SR_PIN pin) HIGH])
        })"

text \<open>
  \<^verbatim>\<open>begin\<close> (a reserved word here, hence the prefix). The row and column tables
  are kept by pointer only; \<open>sr_pins\<close> is the contents of \<^verbatim>\<open>__sr_pins\<close>. The result
  is the events in program order and the globals as \<^verbatim>\<open>begin\<close> leaves them.
\<close>

definition DirectMatrix_begin ::
  "LED_Matrix_h \<Rightarrow> DirectMatrix \<Rightarrow> (int \<Rightarrow> GPIO_pin_t) \<Rightarrow> 32 word \<Rightarrow> (event list \<times> DirectMatrix) option" where
  "DirectMatrix_begin h m sr_pins ISR_freq =
     (let m = m\<lparr>SR_PINS := sr_pins,
                ISR_FREQ := (ISR_FREQ m)(0 := ISR_freq, 1 := push_bit 1 ISR_freq,
                                         2 := push_bit 2 ISR_freq, 3 := push_bit 3 ISR_freq)\<rparr>;
          out = begin_rows (num_rows m) 0 @ begin_cols (num_cols m) 0
      in do {
           out \<leftarrow> begin_sr h m [0, 1, 2] out;
           Some (out @ [Timer1_initialize (ISR_FREQ m 0), Timer1_attachInterrupt], m)
         })"

section \<open>Observing a trace\<close>

text \<open>The periods handed to \<^verbatim>\<open>Timer1.setPeriod\<close>, in order.\<close>

fun period_of :: "event \<Rightarrow> 32 word list" where
  "period_of (Timer1_setPeriod v) = [v]"
| "period_of e = []"

definition set_periods :: "event list \<Rightarrow> 32 word list" where
  "set_periods tr = concat (map period_of tr)"

text \<open>The row slots driven to the enabled level (LOW), in order.\<close>

fun row_enable_of :: "event \<Rightarrow> int list" where
  "row_enable_of (DigitalWrite (ROW_PIN i) LOW) = [i]"
| "row_enable_of e = []"

definition row_enables :: "event list \<Rightarrow> int list" where
  "row_enables tr = concat (map row_enable_of tr)"

text \<open>
  The rows enabled by those invocations of a run that serviced bit plane \<open>p\<close>, that
  is, started with the plane mask \<^verbatim>\<open>pwm\<close> equal to \<open>1 << p\<close>.
\<close>

definition rows_enabled_in_plane :: "nat \<Rightarrow> (isr_static \<times> event list) list \<Rightarrow> int list" where
  "rows_enabled_in_plane p frame =
     concat (map (\<lambda>(s, out). if pwm s = push_bit p 1 then row_enables out else []) frame)"

text \<open>The levels written to one pin slot, in order.\<close>

fun write_to :: "pin_slot \<Rightarrow> event \<Rightarrow> level list" where
  "write_to p (DigitalWrite q l) = (if q = p then [l] else [])"
| "write_to p e = []"

definition writes_to :: "pin_slot \<Rightarrow> event list \<Rightarrow> level list" where
  "writes_to p tr = concat (map (write_to p) tr)"

text \<open>Writes that set up the columns: to a column pin or to a shift register pin.\<close>

fun is_column_write :: "event \<Rightarrow> bool" where
  "is_column_write (DigitalWrite (COL_PIN i) l) = True"
| "is_column_write (DigitalWrite (SR_PIN i) l) = True"
| "is_column_write e = False"

fun is_pin_write :: "event \<Rightarrow> bool" where
  "is_pin_write (DigitalWrite p l) = True"
| "is_pin_write e = False"

text \<open>
  The row slots at the enabled level (LOW) after an event, given those before it, and
  the check that a trace never has two of them at once.
\<close>

fun rows_low :: "event \<Rightarrow> int set \<Rightarrow> int set" where
  "rows_low (DigitalWrite (ROW_PIN i) LOW) low = insert i low"
| "rows_low (DigitalWrite (ROW_PIN i) HIGH) low = low - {i}"
| "rows_low e low = low"

fun exclusive :: "int set \<Rightarrow> event list \<Rightarrow> bool" where
  "exclusive low [] = True"
| "exclusive low (e # es) = (card (rows_low e low) \<le> 1 \<and> exclusive (rows_low e low) es)"

section \<open>What one invocation emits, in closed form\<close>

text \<open>
  The events of one invocation written without the loops, for the invocations that
  return. \<open>direct_events\<close> is one round of the direct column loop, \<open>sr_events\<close> one
  round of the shift register loop, \<open>plane_events\<close> one round of the colour loop
  (\<open>off\<close> and \<open>ps\<close> are \<^verbatim>\<open>col_pin_offset\<close> and \<^verbatim>\<open>pwm_shifted\<close> at its start).
\<close>

definition direct_events :: "DirectMatrix \<Rightarrow> isr_static \<Rightarrow> 8 word \<Rightarrow> 16 word \<Rightarrow> nat \<Rightarrow> event" where
  "direct_events g s off ps c =
     DigitalWrite (COL_PIN (int c + sint off)) (cell_level g s ps (int c))"

definition sr_events :: "LED_Matrix_h \<Rightarrow> DirectMatrix \<Rightarrow> isr_static \<Rightarrow> 16 word \<Rightarrow> nat \<Rightarrow> event list" where
  "sr_events h g s ps c =
     [DigitalWrite (SR_PIN (CLK h)) LOW,
      DigitalWrite (SR_PIN (DATA h)) (cell_level g s ps (int c)),
      DigitalWrite (SR_PIN (CLK h)) HIGH]"

definition plane_events :: "LED_Matrix_h \<Rightarrow> DirectMatrix \<Rightarrow> isr_static \<Rightarrow> nat \<Rightarrow> event list" where
  "plane_events h g s i =
     (let off = of_nat i * ARRAY_COLS g; ps = push_bit (4 * i) (ucast (pwm s)) in
      if SR_PINS g (int i) = DINV h then
        map (direct_events g s off ps) [0..<unat (ARRAY_COLS g)]
      else
        [DigitalWrite (SR_PIN (int i)) LOW]
        @ concat (map (sr_events h g s ps) [0..<unat (ARRAY_COLS g)])
        @ [DigitalWrite (SR_PIN (int i)) HIGH])"

definition isr_events :: "LED_Matrix_h \<Rightarrow> DirectMatrix \<Rightarrow> isr_static \<Rightarrow> event list" where
  "isr_events h g s =
     (if row s = 0 then [Timer1_setPeriod (ISR_FREQ g (unat (isr_freq_offset s)))] else [])
     @ [DigitalWrite (ROW_PIN (sint (if row s = 0 then ARRAY_ROWS g - 1 else row s - 1))) HIGH]
     @ concat (map (plane_events h g s) [0..<unat (NUM_COLORS g)])
     @ [DigitalWrite (ROW_PIN (uint (row s))) LOW]"


section \<open>What begin emits, in closed form\<close>

text \<open>
  The events of \<^verbatim>\<open>begin\<close> written without the loops, for the calls that return:
  one round of the pre-clocking loop, the set-up of one shift register pin, one round
  of the row and of the column loop, and the whole trace.
\<close>

definition clock_events :: "LED_Matrix_h \<Rightarrow> nat \<Rightarrow> event list" where
  "clock_events h i =
     [DigitalWrite (SR_PIN (CLK h)) LOW,
      DigitalWrite (SR_PIN (DATA h)) (if (of_nat i :: 8 word) AND 1 \<noteq> 0 then HIGH else LOW),
      DigitalWrite (SR_PIN (CLK h)) HIGH]"

definition sr_setup_events :: "LED_Matrix_h \<Rightarrow> DirectMatrix \<Rightarrow> int \<Rightarrow> event list" where
  "sr_setup_events h m pin =
     (if SR_PINS m pin = 255 then []
      else [PinMode_OUTPUT (SR_PIN pin), PinMode_OUTPUT (SR_PIN (DATA h)),
            PinMode_OUTPUT (SR_PIN (CLK h)), DigitalWrite (SR_PIN pin) LOW]
           @ concat (map (clock_events h) [0..<unat (num_rows m) + 1])
           @ [DigitalWrite (SR_PIN pin) HIGH])"

definition row_setup_events :: "nat \<Rightarrow> event list" where
  "row_setup_events i = [PinMode_OUTPUT (ROW_PIN (int i)), DigitalWrite (ROW_PIN (int i)) HIGH]"

definition col_setup_events :: "nat \<Rightarrow> event list" where
  "col_setup_events i = [PinMode_OUTPUT (COL_PIN (int i)), DigitalWrite (COL_PIN (int i)) LOW]"

definition begin_events :: "LED_Matrix_h \<Rightarrow> DirectMatrix \<Rightarrow> (int \<Rightarrow> GPIO_pin_t) \<Rightarrow> 32 word \<Rightarrow> event list" where
  "begin_events h m sr_pins ISR_freq =
     concat (map row_setup_events [0..<unat (num_rows m)])
     @ concat (map col_setup_events [0..<unat (num_cols m)])
     @ concat (map (sr_setup_events h (m\<lparr>SR_PINS := sr_pins\<rparr>)) [0, 1, 2])
     @ [Timer1_initialize ISR_freq, Timer1_attachInterrupt]"

section \<open>The refresh state\<close>

text \<open>
  The statics after \<open>k\<close> invocations from the initial ones, for a matrix of \<open>R\<close>
  rows: row \<open>k mod R\<close> of pass \<open>(k div R) mod 4\<close>.
\<close>

definition frame_state :: "nat \<Rightarrow> nat \<Rightarrow> isr_static" where
  "frame_state R k =
     \<lparr>row = of_nat (k mod R), pwm = 2 ^ ((k div R) mod 4),
      isr_freq_offset = of_nat ((k div R) mod 4)\<rparr>"

text \<open>The invariant of the statics: the mask is \<open>1 << plane index\<close>.\<close>

definition refresh_inv :: "DirectMatrix \<Rightarrow> isr_static \<Rightarrow> bool" where
  "refresh_inv g s \<longleftrightarrow>
     row s < ARRAY_ROWS g \<and> isr_freq_offset s < 4 \<and>
     pwm s = push_bit (unat (isr_freq_offset s)) 1"

section \<open>Properties of drawPixel\<close>

lemma sint_7_minus:
  "0 \<le> sint (y::16 word) \<Longrightarrow> sint y < 8 \<Longrightarrow> sint (7 - y) = 7 - sint y"
  by (simp add: sint_word_ariths signed_take_bit_int_eq_self)

lemma unat_8_cases:
  "unat (rotation::8 word) = Suc 0 \<longleftrightarrow> rotation = 1"
  "unat rotation = 2 \<longleftrightarrow> rotation = 2"
  "unat rotation = 3 \<longleftrightarrow> rotation = 3"
  using word_unat_eq_iff[of rotation 1] word_unat_eq_iff[of rotation 2]
    word_unat_eq_iff[of rotation 3] by simp_all

lemma drawPixel_target_in_bounds:
  assumes "in_bounds8 x y"
  shows "drawPixel_target rotation cols x y =
     Some (snd (spec_rotate (unat rotation) (sint x, sint y)) * uint cols
           + fst (spec_rotate (unat rotation) (sint x, sint y)))"
  using assms
  by (simp add: drawPixel_target_def drawPixel_rotate_def spec_rotate_def in_bounds8_def
        sint_7_minus unat_8_cases)

lemma drawPixel_target_None: "\<not> in_bounds8 x y \<Longrightarrow> drawPixel_target rotation cols x y = None"
  by (auto simp: drawPixel_target_def in_bounds8_def)

lemma spec_rotate_range:
  "0 \<le> a \<Longrightarrow> a < 8 \<Longrightarrow> 0 \<le> b \<Longrightarrow> b < 8 \<Longrightarrow>
   0 \<le> fst (spec_rotate r (a, b)) \<and> fst (spec_rotate r (a, b)) \<le> 7 \<and>
   0 \<le> snd (spec_rotate r (a, b)) \<and> snd (spec_rotate r (a, b)) \<le> 7"
  by (auto simp: spec_rotate_def)

lemma drawPixel_target_le:
  assumes "drawPixel_target rotation cols x y = Some i"
  shows "i \<le> 7 * uint cols + 7"
proof -
  have ib: "in_bounds8 x y" using assms drawPixel_target_None[of x y rotation cols] by auto
  let ?p = "spec_rotate (unat rotation) (sint x, sint y)"
  have i: "i = snd ?p * uint cols + fst ?p"
    using assms drawPixel_target_in_bounds[OF ib, of rotation cols] by simp
  have rg: "fst ?p \<le> 7" "snd ?p \<le> 7" "0 \<le> snd ?p"
    using spec_rotate_range[of "sint x" "sint y" "unat rotation"] ib by (auto simp: in_bounds8_def)
  have "snd ?p * uint cols \<le> 7 * uint cols"
    using rg by (intro mult_right_mono) auto
  with rg i show ?thesis by linarith
qed

lemma drawPixel_target_max:
  "\<exists>x y. drawPixel_target rotation cols x y = Some (7 * uint cols + 7)"
proof -
  consider "rotation = 1" | "rotation = 2" | "rotation = 3"
    | "rotation \<noteq> 1" "rotation \<noteq> 2" "rotation \<noteq> 3" by blast
  then show ?thesis
  proof cases
    case 1
    have "drawPixel_target 1 cols 7 0 = Some (7 * uint cols + 7)"
      by (simp add: drawPixel_target_def drawPixel_rotate_def)
    with 1 show ?thesis by blast
  next
    case 2
    have "drawPixel_target 2 cols 0 0 = Some (7 * uint cols + 7)"
      by (simp add: drawPixel_target_def drawPixel_rotate_def)
    with 2 show ?thesis by blast
  next
    case 3
    have "drawPixel_target 3 cols 0 7 = Some (7 * uint cols + 7)"
      by (simp add: drawPixel_target_def drawPixel_rotate_def)
    with 3 show ?thesis by blast
  next
    case 4
    then have "drawPixel_target rotation cols 7 7 = Some (7 * uint cols + 7)"
      by (simp add: drawPixel_target_def drawPixel_rotate_def)
    then show ?thesis by blast
  qed
qed

text \<open>
  C10, as amended. \<^verbatim>\<open>drawPixel\<close> checks the coordinates against 8 and never against
  the constructed size. Under any rotation, some in-range \<open>(x, y)\<close> is stored at a cell
  offset at or past the \<open>rows * cols\<close> allocated cells exactly when
  \<open>rows * cols \<le> 7 * cols + 7\<close>: the largest offset an accepted call reaches is
  \<open>7 * cols + 7\<close>.
\<close>

theorem drawPixel_overrun_iff:
  "(\<exists>x y i. drawPixel_target rotation cols x y = Some i \<and> uint (rows::8 word) * uint cols \<le> i)
   \<longleftrightarrow> uint rows * uint cols \<le> 7 * uint cols + 7"
proof
  assume "\<exists>x y i. drawPixel_target rotation cols x y = Some i \<and> uint rows * uint cols \<le> i"
  then obtain x y i where "drawPixel_target rotation cols x y = Some i"
    and "uint rows * uint cols \<le> i" by blast
  then show "uint rows * uint cols \<le> 7 * uint cols + 7"
    using drawPixel_target_le by fastforce
next
  assume "uint rows * uint cols \<le> 7 * uint cols + 7"
  then show "\<exists>x y i. drawPixel_target rotation cols x y = Some i \<and> uint rows * uint cols \<le> i"
    using drawPixel_target_max[of rotation cols] by blast
qed

text \<open>C10 at the 4x4 matrix: under every rotation an accepted call overruns its 16 cells.\<close>

theorem drawPixel_overrun_4x4:
  "\<forall>rotation. \<exists>x y i. drawPixel_target rotation (4::8 word) x y = Some i \<and>
      uint (4::8 word) * uint (4::8 word) \<le> i"
  using drawPixel_overrun_iff[where cols=4 and rows=4] by simp

text \<open>
  C10 as stated fails: a matrix of 63 rows and 1 column has \<open>rows * cols = 63 < 64\<close>,
  but every accepted call stores at an offset of at most 14, inside the 63 cells.
\<close>

theorem drawPixel_63x1_no_overrun:
  "\<not> (\<exists>rotation x y i. drawPixel_target rotation (1::8 word) x y = Some i
        \<and> uint (63::8 word) * uint (1::8 word) \<le> i)"
proof
  assume "\<exists>rotation x y i. drawPixel_target rotation (1::8 word) x y = Some i
        \<and> uint (63::8 word) * uint (1::8 word) \<le> i"
  then obtain rotation x y i where t: "drawPixel_target rotation (1::8 word) x y = Some i"
    and ge: "uint (63::8 word) * uint (1::8 word) \<le> i" by blast
  from drawPixel_target_le[OF t] ge show False by simp
qed

text \<open>
  C7. Out-of-bounds plot is a silent no-op: when \<open>x\<close> or \<open>y\<close> is outside \<open>[0, 8)\<close>,
  \<^verbatim>\<open>drawPixel\<close> returns with the framebuffer (and everything else) unchanged, for
  every colour word and every rotation.
\<close>

theorem drawPixel_out_of_bounds_noop:
  "\<not> in_bounds8 x y \<Longrightarrow> drawPixel m rotation x y w = m"
  by (simp add: drawPixel_def drawPixel_target_None)

text \<open>C7 at \<open>(8, 0)\<close> and at \<open>(3, -1)\<close>.\<close>

theorem drawPixel_out_of_bounds_noop_witness:
  "\<not> in_bounds8 8 0 \<and> \<not> in_bounds8 3 (-1) \<and>
   (\<forall>m rotation w. drawPixel m rotation 8 0 w = m \<and> drawPixel m rotation 3 (-1) w = m)"
  using drawPixel_out_of_bounds_noop[of 8 0] drawPixel_out_of_bounds_noop[of 3 "-1"]
  by (simp add: in_bounds8_def)

text \<open>
  C6. Rotation round-trip on an 8x8 matrix: for a rotation \<open>r < 4\<close> and in-range
  \<open>(x, y)\<close>, \<^verbatim>\<open>drawPixel\<close> stores the word at cell offset \<open>y' * C + x'\<close>, where
  \<open>(x', y')\<close> is given by the rotation formulas of the specification; the offset lies
  inside the framebuffer and reading it back returns the word. Applying the
  rotation-1 transform of the code four times gives the position back.
\<close>

theorem drawPixel_rotation_roundtrip:
  assumes "num_rows m = 8" and "num_cols m = 8" and "r < 4" and "in_bounds8 x y"
  shows "(case spec_rotate r (sint x, sint y) of (x', y') \<Rightarrow>
            drawPixel_target (of_nat r) (num_cols m) x y = Some (y' * uint (num_cols m) + x') \<and>
            0 \<le> y' * uint (num_cols m) + x' \<and>
            y' * uint (num_cols m) + x' < allocated_cells m \<and>
            MATRIX (drawPixel m (of_nat r) x y w) (y' * uint (num_cols m) + x') = w) \<and>
         (drawPixel_rotate 1 ^^ 4) (x, y) = (x, y)"
proof -
  have u: "unat (of_nat r :: 8 word) = r" using assms(3) by (simp add: unat_of_nat)
  obtain x' y' where p: "spec_rotate r (sint x, sint y) = (x', y')" by (cases "spec_rotate r (sint x, sint y)")
  have t: "drawPixel_target (of_nat r) (num_cols m) x y = Some (y' * uint (num_cols m) + x')"
    using drawPixel_target_in_bounds[OF assms(4), of "of_nat r" "num_cols m"] u p by simp
  have rg: "0 \<le> x'" "x' \<le> 7" "0 \<le> y'" "y' \<le> 7"
    using spec_rotate_range[of "sint x" "sint y" r] assms(4) p by (auto simp: in_bounds8_def)
  have id4: "(drawPixel_rotate 1 ^^ 4) (x, y) = (x, y)"
    by (simp add: drawPixel_rotate_def numeral_eq_Suc)
  have st: "MATRIX (drawPixel m (of_nat r) x y w) (y' * uint (num_cols m) + x') = w"
    using t by (simp add: drawPixel_def)
  show ?thesis using t id4 st rg p assms(1,2) by (simp add: allocated_cells_def)
qed

text \<open>C6 at rotation 1 and \<open>(2, 5)\<close>, which goes to \<open>(2, 2)\<close>, cell offset 18.\<close>

theorem drawPixel_rotation_roundtrip_witness:
  "in_bounds8 2 5 \<and>
   (\<forall>m w. drawPixel_target 1 8 2 5 = Some 18 \<and>
      MATRIX (drawPixel (m\<lparr>num_rows := 8, num_cols := 8\<rparr>) 1 2 5 w) 18 = w) \<and>
   (drawPixel_rotate 1 ^^ 4) (2, 5) = (2, 5)"
proof -
  have ib: "in_bounds8 2 5" by (simp add: in_bounds8_def)
  have "drawPixel_target 1 8 2 5 = Some 18 \<and>
      MATRIX (drawPixel (m\<lparr>num_rows := 8, num_cols := 8\<rparr>) 1 2 5 w) 18 = w \<and>
      (drawPixel_rotate 1 ^^ 4) (2, 5) = (2, 5)" for m w
    using drawPixel_rotation_roundtrip[of "m\<lparr>num_rows := 8, num_cols := 8\<rparr>" 1 2 5 w] ib
    by (simp add: spec_rotate_def)
  with ib show ?thesis by blast
qed

section \<open>Properties of clear\<close>

lemma clear_loop_returns_bound:
  assumes "clear_loop bound i mem = Some r" shows "bound < 256"
proof (rule clear_loop.raw_induct[where P = "\<lambda>b _ _ _. b < 256", OF _ assms])
  fix loop :: "int \<Rightarrow> 8 word \<Rightarrow> (int \<Rightarrow> 16 word) \<Rightarrow> (int \<Rightarrow> 16 word) option"
    and b i mem r
  assume IH: "\<And>b i mem r. loop b i mem = Some r \<Longrightarrow> b < 256"
    and step: "(if uint i < b then loop b (i + 1) (mem(uint i := 0)) else Some mem) = Some r"
  have "uint i < 256" using uint_bounded[of i] by simp
  with IH step show "b < 256" by (auto split: if_splits)
qed

lemma clear_loop_diverges: "256 \<le> bound \<Longrightarrow> clear_loop bound i mem = None"
  using clear_loop_returns_bound[of bound i mem] by (cases "clear_loop bound i mem") auto

text \<open>
  C8 fails on the code at a 16x16 matrix: the bound is 256, the 8-bit counter wraps
  from 255 to 0 and stays below it, and \<^verbatim>\<open>clear\<close> never returns.
\<close>

theorem clear_16x16_never_returns: "clear (m\<lparr>num_rows := 16, num_cols := 16\<rparr>) = None"
  by (simp add: clear_def clear_loop_diverges)

text \<open>
  Where the counter can reach the bound (at most 255 cells) \<^verbatim>\<open>clear\<close> returns with
  every allocated cell zero and nothing else touched, and doing it again changes
  nothing.
\<close>

lemma clear_loop_small:
  "bound \<le> 255 \<Longrightarrow> uint i \<le> bound \<Longrightarrow> 0 \<le> bound \<Longrightarrow>
   clear_loop bound i mem = Some (\<lambda>k. if uint i \<le> k \<and> k < bound then 0 else mem k)"
proof (induction "nat (bound - uint i)" arbitrary: i mem)
  case 0
  then have "\<not> uint i < bound" by simp
  then show ?case by (subst clear_loop.simps) (auto simp: fun_eq_iff)
next
  case (Suc n)
  then have lt: "uint i < bound" by simp
  then have ui: "uint (i + 1) = uint i + 1"
    using Suc.prems by (simp add: uint_word_ariths take_bit_int_eq_self)
  have "clear_loop bound (i + 1) (mem(uint i := 0)) =
      Some (\<lambda>k. if uint (i + 1) \<le> k \<and> k < bound then 0 else (mem(uint i := 0)) k)"
    using Suc lt ui by (intro Suc.hyps) auto
  then show ?case using lt ui
    by (subst clear_loop.simps) (auto simp: fun_eq_iff)
qed

lemma clear_small:
  "uint (num_rows m) * uint (num_cols m) \<le> 255 \<Longrightarrow>
   clear m = Some (m\<lparr>MATRIX := (\<lambda>k. if 0 \<le> k \<and> k < allocated_cells m then 0 else MATRIX m k)\<rparr>)"
  by (simp add: clear_def allocated_cells_def clear_loop_small)

lemma clear_idempotent_small:
  assumes "uint (num_rows m) * uint (num_cols m) \<le> 255" and "clear m = Some m'"
  shows "clear m' = Some m'"
proof -
  have m': "m' = m\<lparr>MATRIX := (\<lambda>k. if 0 \<le> k \<and> k < allocated_cells m then 0 else MATRIX m k)\<rparr>"
    using clear_small[OF assms(1)] assms(2) by simp
  have "uint (num_rows m') * uint (num_cols m') \<le> 255" using assms(1) m' by simp
  from clear_small[OF this] show ?thesis
    by (simp add: m' allocated_cells_def fun_eq_iff)
qed

section \<open>The loops of the interrupt return\<close>

lemma sint_of_nat8: "n \<le> 127 \<Longrightarrow> sint (of_nat n :: 8 word) = int n"
  by (simp add: sint_uint take_bit_nat_eq_self signed_take_bit_int_eq_self unsigned_of_nat)

lemma le_127_unat: "(w :: 8 word) \<le> 127 \<Longrightarrow> unat w \<le> 127"
  by (simp add: word_le_nat_alt)

lemma direct_cols_run:
  assumes "ARRAY_COLS g \<le> 127" and "n \<le> unat (ARRAY_COLS g)"
  shows "direct_cols g s off ps (of_nat n) out =
         Some (out @ map (direct_events g s off ps) [n..<unat (ARRAY_COLS g)])"
  using assms(2)
proof (induction "unat (ARRAY_COLS g) - n" arbitrary: n out)
  case 0
  note uC = uint_nat[of "ARRAY_COLS g"]
  from 0 have n: "n = unat (ARRAY_COLS g)" by linarith
  have "n \<le> 127" using le_127_unat[OF assms(1)] n by simp
  then have "sint (of_nat n :: 8 word) = int n" by (rule sint_of_nat8)
  then have "\<not> sint (of_nat n :: 8 word) \<le> uint (ARRAY_COLS g) - 1"
    using n uC by linarith
  then show ?case using n by (subst direct_cols.simps) simp
next
  case (Suc k)
  note uC = uint_nat[of "ARRAY_COLS g"]
  from Suc have lt: "n < unat (ARRAY_COLS g)" by linarith
  have "n \<le> 127" using le_127_unat[OF assms(1)] lt by simp
  then have sn: "sint (of_nat n :: 8 word) = int n" by (rule sint_of_nat8)
  have c: "sint (of_nat n :: 8 word) \<le> uint (ARRAY_COLS g) - 1"
    using lt sn uC by linarith
  have IH: "direct_cols g s off ps (of_nat (Suc n)) (out @ [direct_events g s off ps n]) =
      Some ((out @ [direct_events g s off ps n]) @ map (direct_events g s off ps) [Suc n..<unat (ARRAY_COLS g)])"
    using Suc lt by (intro Suc.hyps) auto
  show ?case
    using c IH sn lt
    by (subst direct_cols.simps) (simp add: direct_events_def upt_conv_Cons add.commute)
qed


lemma sr_cols_run:
  assumes "ARRAY_COLS g \<le> 127" and "n \<le> unat (ARRAY_COLS g)"
  shows "sr_cols h g s ps (of_nat n) out =
         Some (out @ concat (map (sr_events h g s ps) [n..<unat (ARRAY_COLS g)]))"
  using assms(2)
proof (induction "unat (ARRAY_COLS g) - n" arbitrary: n out)
  case 0
  note uC = uint_nat[of "ARRAY_COLS g"]
  from 0 have n: "n = unat (ARRAY_COLS g)" by linarith
  have "n \<le> 127" using le_127_unat[OF assms(1)] n by simp
  then have "sint (of_nat n :: 8 word) = int n" by (rule sint_of_nat8)
  then have "\<not> sint (of_nat n :: 8 word) \<le> uint (ARRAY_COLS g) - 1"
    using n uC by linarith
  then show ?case using n by (subst sr_cols.simps) simp
next
  case (Suc k)
  note uC = uint_nat[of "ARRAY_COLS g"]
  from Suc have lt: "n < unat (ARRAY_COLS g)" by linarith
  have "n \<le> 127" using le_127_unat[OF assms(1)] lt by simp
  then have sn: "sint (of_nat n :: 8 word) = int n" by (rule sint_of_nat8)
  have c: "sint (of_nat n :: 8 word) \<le> uint (ARRAY_COLS g) - 1"
    using lt sn uC by linarith
  have IH: "sr_cols h g s ps (of_nat (Suc n)) (out @ sr_events h g s ps n) =
      Some ((out @ sr_events h g s ps n) @ concat (map (sr_events h g s ps) [Suc n..<unat (ARRAY_COLS g)]))"
    using Suc lt by (intro Suc.hyps) auto
  show ?case
    using c IH sn lt
    by (subst sr_cols.simps) (simp add: sr_events_def upt_conv_Cons add.commute)
qed

lemma color_round:
  assumes "ARRAY_COLS g \<le> 127"
  shows "(if SR_PINS g (int i) = DINV h then
            direct_cols g s (of_nat i * ARRAY_COLS g) (push_bit (4 * i) (ucast (pwm s))) 0 out
          else
            do {
              out \<leftarrow> sr_cols h g s (push_bit (4 * i) (ucast (pwm s))) 0
                       (out @ [DigitalWrite (SR_PIN (int i)) LOW]);
              Some (out @ [DigitalWrite (SR_PIN (int i)) HIGH])
            }) = Some (out @ plane_events h g s i)"
  using direct_cols_run[OF assms, of 0 s] sr_cols_run[OF assms, of 0 h s]
  by (simp add: plane_events_def)

lemma color_loop_run:
  assumes "ARRAY_COLS g \<le> 127" and "NUM_COLORS g \<le> 127" and "i \<le> unat (NUM_COLORS g)"
  shows "color_loop h g s (of_nat i) (of_nat i * ARRAY_COLS g)
           (push_bit (4 * i) (ucast (pwm s))) out =
         Some (out @ concat (map (plane_events h g s) [i..<unat (NUM_COLORS g)]))"
  using assms(3)
proof (induction "unat (NUM_COLORS g) - i" arbitrary: i out)
  case 0
  note uK = uint_nat[of "NUM_COLORS g"]
  from 0 have i: "i = unat (NUM_COLORS g)" by linarith
  have "i \<le> 127" using le_127_unat[OF assms(2)] i by simp
  then have "sint (of_nat i :: 8 word) = int i" by (rule sint_of_nat8)
  then have "\<not> sint (of_nat i :: 8 word) < uint (NUM_COLORS g)"
    using i uK by linarith
  then show ?case using i by (subst color_loop.simps) simp
next
  case (Suc k)
  note uK = uint_nat[of "NUM_COLORS g"]
  from Suc have lt: "i < unat (NUM_COLORS g)" by linarith
  have "i \<le> 127" using le_127_unat[OF assms(2)] lt by simp
  then have si: "sint (of_nat i :: 8 word) = int i" by (rule sint_of_nat8)
  have c: "sint (of_nat i :: 8 word) < uint (NUM_COLORS g)"
    using lt si uK by linarith
  have off: "of_nat i * ARRAY_COLS g + ARRAY_COLS g = of_nat (Suc i) * ARRAY_COLS g"
    by (simp add: algebra_simps)
  have ps: "push_bit 4 (push_bit (4 * i) (ucast (pwm s) :: 16 word)) =
            push_bit (4 * Suc i) (ucast (pwm s))"
    by (simp add: push_bit_push_bit)
  have IH: "color_loop h g s (of_nat (Suc i)) (of_nat (Suc i) * ARRAY_COLS g)
              (push_bit (4 * Suc i) (ucast (pwm s))) (out @ plane_events h g s i) =
      Some ((out @ plane_events h g s i)
            @ concat (map (plane_events h g s) [Suc i..<unat (NUM_COLORS g)]))"
    using Suc lt by (intro Suc.hyps) auto
  have nxt: "(of_nat i :: 8 word) + 1 = of_nat (Suc i)" by simp
  have c': "int i < uint (NUM_COLORS g)" using c si by simp
  show ?case
    apply (subst color_loop.simps)
    apply (simp only: c c' if_True si color_round[OF assms(1)] bind.bind_lunit off ps nxt IH)
    apply (simp add: upt_conv_Cons lt)
    done
qed

lemma RefreshPWMLine_returns:
  assumes "ARRAY_COLS g \<le> 127" and "NUM_COLORS g \<le> 127"
  shows "DirectMatrix_RefreshPWMLine h g s = Some (isr_events h g s, isr_advance g s)"
  using color_loop_run[OF assms, of 0 h s]
  by (simp add: DirectMatrix_RefreshPWMLine_def isr_events_def)

section \<open>Progress of the refresh state\<close>

lemma frame_state_0: "frame_state R 0 = isr_init"
  by (simp add: frame_state_def isr_init_def)

lemma word8_less_4_cases: "(w :: 8 word) < 4 \<Longrightarrow> w = 0 \<or> w = 1 \<or> w = 2 \<or> w = 3"
proof -
  assume "w < 4"
  then have "unat w < 4" by (simp add: word_less_nat_alt)
  then have "unat w = 0 \<or> unat w = 1 \<or> unat w = 2 \<or> unat w = 3" by linarith
  then show ?thesis
    using word_unat_eq_iff[of w 0] word_unat_eq_iff[of w 1] word_unat_eq_iff[of w 2]
      word_unat_eq_iff[of w 3] by auto
qed

lemma refresh_inv_advance:
  assumes "refresh_inv g s"
  shows "refresh_inv g (isr_advance g s)"
proof -
  from assms have r: "row s < ARRAY_ROWS g" and o: "isr_freq_offset s < 4"
    and p: "pwm s = push_bit (unat (isr_freq_offset s)) 1"
    by (simp_all add: refresh_inv_def)
  have pos: "0 < ARRAY_ROWS g" using r by (simp add: word_less_nat_alt)
  show ?thesis
  proof (cases "row s + 1 \<ge> ARRAY_ROWS g")
    case True
    from word8_less_4_cases[OF o] show ?thesis
      using True pos p
      by (auto simp: refresh_inv_def isr_advance_def DirectMatrix_PWM_LEVELS_def Let_def)
  next
    case False
    then have "row s + 1 < ARRAY_ROWS g" by simp
    then show ?thesis using False o p
      by (simp add: refresh_inv_def isr_advance_def Let_def)
  qed
qed

lemma refresh_inv_init: "0 < ARRAY_ROWS g \<Longrightarrow> refresh_inv g isr_init"
  by (simp add: refresh_inv_def isr_init_def)


lemma of_nat_ge_8: "a \<le> 255 \<Longrightarrow> b \<le> 255 \<Longrightarrow> (of_nat a :: 8 word) \<ge> of_nat b \<longleftrightarrow> a \<ge> b"
  by (simp add: word_le_nat_alt unat_of_nat)

lemma advance_frame_state:
  assumes "0 < ARRAY_ROWS g"
  shows "isr_advance g (frame_state (unat (ARRAY_ROWS g)) k) =
         frame_state (unat (ARRAY_ROWS g)) (Suc k)"
proof -
  define n where "n = unat (ARRAY_ROWS g)"
  have n0: "0 < n" using assms by (simp add: n_def word_less_nat_alt)
  have n255: "n \<le> 255" using unsigned_less[of "ARRAY_ROWS g", where ?'a = nat] by (simp add: n_def)
  have R: "ARRAY_ROWS g = of_nat n" by (simp add: n_def)
  have rlt: "k mod n < n" using n0 by simp
  have e: "(of_nat (k mod n) + 1 :: 8 word) = of_nat (Suc (k mod n))" by simp
  have ge0: "(of_nat (Suc (k mod n)) :: 8 word) \<ge> of_nat n \<longleftrightarrow> Suc (k mod n) \<ge> n"
    using rlt n255 by (intro of_nat_ge_8) auto
  have ge: "(of_nat (k mod n) + 1 :: 8 word) \<ge> of_nat n \<longleftrightarrow> Suc (k mod n) = n"
    unfolding e ge0 using rlt by linarith
  have ge': "(1 + of_nat (k mod n) :: 8 word) \<ge> of_nat n \<longleftrightarrow> Suc (k mod n) = n"
    using ge by (simp add: add.commute)
  have p4: "(k div n) mod 4 = 0 \<or> (k div n) mod 4 = 1 \<or> (k div n) mod 4 = 2 \<or> (k div n) mod 4 = 3"
    by linarith
  show ?thesis
  proof (cases "Suc (k mod n) = n")
    case True
    then have m: "Suc k mod n = 0" and d: "Suc k div n = Suc (k div n)"
      by (simp_all add: mod_Suc div_Suc)
    from p4 show ?thesis
      unfolding n_def[symmetric]
      using ge ge' True m d
      by (auto simp: isr_advance_def frame_state_def R Let_def DirectMatrix_PWM_LEVELS_def mod_Suc)
  next
    case False
    then have m: "Suc k mod n = Suc (k mod n)" and d: "Suc k div n = k div n"
      by (simp_all add: mod_Suc div_Suc)
    show ?thesis
      unfolding n_def[symmetric]
      using ge ge' False m d
      by (simp add: isr_advance_def frame_state_def R Let_def)
  qed
qed

lemma run_ISR_frame:
  assumes "0 < ARRAY_ROWS g" and "ARRAY_COLS g \<le> 127" and "NUM_COLORS g \<le> 127"
  shows "run_ISR h g n (frame_state (unat (ARRAY_ROWS g)) k) =
         Some (map (\<lambda>j. (frame_state (unat (ARRAY_ROWS g)) j,
                          isr_events h g (frame_state (unat (ARRAY_ROWS g)) j))) [k..<k + n],
               frame_state (unat (ARRAY_ROWS g)) (k + n))"
proof (induction n arbitrary: k)
  case 0
  show ?case by simp
next
  case (Suc n)
  have u: "[k..<k + Suc n] = k # [Suc k..<Suc k + n]" by (simp add: upt_conv_Cons)
  show ?case
    unfolding u using Suc.IH[of "Suc k"]
    by (simp add: RefreshPWMLine_returns[OF assms(2,3)] advance_frame_state[OF assms(1)])
qed

lemma frame_state_inv:
  assumes "0 < ARRAY_ROWS g"
  shows "refresh_inv g (frame_state (unat (ARRAY_ROWS g)) k)"
proof (induction k)
  case 0
  show ?case using refresh_inv_init[OF assms] by (simp add: frame_state_0)
next
  case (Suc k)
  then show ?case using refresh_inv_advance advance_frame_state[OF assms] by metis
qed

section \<open>One frame\<close>

lemma concat_map_Nil: "(\<And>x. x \<in> set xs \<Longrightarrow> f x = []) \<Longrightarrow> concat (map f xs) = []"
  by (induction xs) auto

lemma plane_events_column: "e \<in> set (plane_events h g s i) \<Longrightarrow> is_column_write e"
  by (auto simp: plane_events_def Let_def direct_events_def sr_events_def split: if_splits)

lemma column_write_observed:
  assumes "is_column_write e"
  shows "period_of e = []" and "row_enable_of e = []" 
  using assms by (cases e rule: is_column_write.cases; simp)+

lemma set_periods_isr_events:
  "set_periods (isr_events h g s) =
     (if row s = 0 then [ISR_FREQ g (unat (isr_freq_offset s))] else [])"
  by (simp add: set_periods_def isr_events_def plane_events_column column_write_observed)

lemma row_enables_isr_events: "row_enables (isr_events h g s) = [uint (row s)]"
  by (simp add: row_enables_def isr_events_def plane_events_column column_write_observed)

lemma block_upt:
  assumes "0 < (R::nat)"
  shows "map (\<lambda>j. f (j div R) (j mod R)) [p * R..<p * R + R] = map (f p) [0..<R]"
proof -
  have "[p * R..<p * R + R] = map (\<lambda>i. i + p * R) [0..<R]"
    using map_add_upt[of "p * R" R] by (simp add: add.commute)
  then have "map (\<lambda>j. f (j div R) (j mod R)) [p * R..<p * R + R] =
             map (\<lambda>i. f ((i + p * R) div R) ((i + p * R) mod R)) [0..<R]"
    by (simp add: o_def)
  also have "\<dots> = map (f p) [0..<R]"
    using assms by (intro map_cong) auto
  finally show ?thesis .
qed

lemma frame_blocks:
  assumes "0 < (R::nat)"
  shows "map (\<lambda>j. f (j div R) (j mod R)) [0..<p * R] =
         concat (map (\<lambda>q. map (f q) [0..<R]) [0..<p])"
proof (induction p)
  case 0
  show ?case by simp
next
  case (Suc p)
  have "[0..<Suc p * R] = [0..<p * R] @ [p * R..<p * R + R]"
    using upt_add_eq_append[of 0 "p * R" R] by (simp add: add.commute)
  then show ?case using Suc block_upt[OF assms, of f p] by simp
qed

lemma upt_4: "[0..<4] = [0, 1, 2, Suc 2]"
  by (simp add: upt_rec)


lemma count_list_upt: "count_list [0..<n] r = (if r < n then 1 else 0)"
  by (induction n) auto

lemma count_list_rows: "r < n \<Longrightarrow> count_list (map int [0..<n]) (int r) = 1"
  using count_list_inj_map[of int "[0..<n]" r] by (simp add: count_list_upt)

lemma uint_of_nat_mod8:
  assumes "0 < ARRAY_ROWS g"
  shows "uint (of_nat (j mod unat (ARRAY_ROWS g)) :: 8 word) = int (j mod unat (ARRAY_ROWS g))"
proof -
  have "0 < unat (ARRAY_ROWS g)" using assms by (simp add: word_less_nat_alt)
  then have "j mod unat (ARRAY_ROWS g) < unat (ARRAY_ROWS g)" by simp
  moreover have "unat (ARRAY_ROWS g) < 256"
    using unsigned_less[of "ARRAY_ROWS g", where ?'a = nat] by simp
  ultimately have "j mod unat (ARRAY_ROWS g) < 256" by linarith
  then show ?thesis by (simp add: uint_nat unat_of_nat)
qed

lemma run_ISR_from_init:
  assumes "0 < ARRAY_ROWS g" and "ARRAY_COLS g \<le> 127" and "NUM_COLORS g \<le> 127"
  shows "run_ISR h g n isr_init =
         Some (map (\<lambda>j. (frame_state (unat (ARRAY_ROWS g)) j,
                          isr_events h g (frame_state (unat (ARRAY_ROWS g)) j))) [0..<n],
               frame_state (unat (ARRAY_ROWS g)) n)"
  using run_ISR_frame[OF assms, of h n 0] by (simp add: frame_state_0)

lemma frame_state_full: "0 < R \<Longrightarrow> frame_state R (4 * R) = isr_init"
  by (simp add: frame_state_def isr_init_def)

lemma row_enables_concat: "row_enables (concat xss) = concat (map row_enables xss)"
  by (induction xss) (simp_all add: row_enables_def)

lemma set_periods_concat: "set_periods (concat xss) = concat (map set_periods xss)"
  by (induction xss) (simp_all add: set_periods_def)

lemma frame_row_enables:
  assumes "0 < ARRAY_ROWS g"
  shows "row_enables (concat (map snd (map (\<lambda>j. (frame_state (unat (ARRAY_ROWS g)) j,
                          isr_events h g (frame_state (unat (ARRAY_ROWS g)) j))) [0..<p * unat (ARRAY_ROWS g)]))) =
         concat (replicate p (map int [0..<unat (ARRAY_ROWS g)]))"
proof -
  define R where "R = unat (ARRAY_ROWS g)"
  have R0: "0 < R" using assms by (simp add: R_def word_less_nat_alt)
  have "row_enables (concat (map snd (map (\<lambda>j. (frame_state R j,
                          isr_events h g (frame_state R j))) [0..<p * R]))) =
        concat (map (\<lambda>j. [uint (row (frame_state R j))]) [0..<p * R])"
    by (simp add: row_enables_concat o_def row_enables_isr_events)
  also have "\<dots> = map (\<lambda>j. (\<lambda>q i. int i) (j div R) (j mod R)) [0..<p * R]"
    using uint_of_nat_mod8[OF assms] by (simp add: frame_state_def R_def)
  also have "\<dots> = concat (map (\<lambda>q. map int [0..<R]) [0..<p])"
    by (rule frame_blocks[OF R0])
  also have "\<dots> = concat (replicate p (map int [0..<R]))"
    by (simp add: map_replicate_const)
  finally show ?thesis unfolding R_def .
qed


lemma frame_rows_in_plane:
  assumes "0 < ARRAY_ROWS g" and "p < 4"
  shows "rows_enabled_in_plane p (map (\<lambda>j. (frame_state (unat (ARRAY_ROWS g)) j,
                          isr_events h g (frame_state (unat (ARRAY_ROWS g)) j))) [0..<4 * unat (ARRAY_ROWS g)]) =
         map int [0..<unat (ARRAY_ROWS g)]"
proof -
  let ?R = "unat (ARRAY_ROWS g)"
  have R0: "0 < ?R" using assms by (simp add: word_less_nat_alt)
  let ?F = "\<lambda>q i. if q mod 4 = p then [int i] else []"
  have pw: "(2::8 word) ^ q = push_bit p 1 \<longleftrightarrow> q = p" if "q < 4" for q
  proof -
    from that have "q = 0 \<or> q = 1 \<or> q = 2 \<or> q = 3" by linarith
    moreover from assms(2) have "p = 0 \<or> p = 1 \<or> p = 2 \<or> p = 3" by linarith
    ultimately show ?thesis by auto
  qed
  have pt: "(if pwm (frame_state ?R j) = push_bit p 1
             then row_enables (isr_events h g (frame_state ?R j)) else []) =
            ?F (j div ?R) (j mod ?R)" for j
    using uint_of_nat_mod8[OF assms(1), of j] pw[of "(j div ?R) mod 4"]
    by (simp add: row_enables_isr_events frame_state_def)
  have "rows_enabled_in_plane p (map (\<lambda>j. (frame_state ?R j,
                          isr_events h g (frame_state ?R j))) [0..<4 * ?R]) =
        concat (map (\<lambda>j. ?F (j div ?R) (j mod ?R)) [0..<4 * ?R])"
    by (simp only: rows_enabled_in_plane_def map_map o_def split_conv pt)
  also have "\<dots> = concat (concat (map (\<lambda>q. map (?F q) [0..<?R]) [0..<4]))"
    using frame_blocks[OF R0, of ?F 4] by simp
  also have "\<dots> = map int [0..<?R]"
  proof -
    have sel: "concat (map (?F q) [0..<n]) = (if q mod 4 = p then map int [0..<n] else [])" for q n
      by (induction n) auto
    have nil: "concat (map (\<lambda>i. []) xs) = []" for xs :: "nat list"
      by (induction xs) auto
    from assms(2) have "p = 0 \<or> p = 1 \<or> p = 2 \<or> p = 3" by linarith
    then show ?thesis
      by (auto simp: upt_4 sel nil simp del: upt_Suc)
  qed
  finally show ?thesis .
qed

text \<open>
  C3. Frame coverage: on a matrix with at least one row (and dimensions for which the
  interrupt returns), the \<open>4 * R\<close> invocations from the initial statics all
  return and lead back to the initial statics; the rows they enable are
  \<open>0, ..., R - 1\<close> four times over, and the invocations of each bit plane \<open>p < 4\<close>
  (those with mask \<open>1 << p\<close>) enable \<open>0, ..., R - 1\<close>. So each row is enabled exactly
  4 times, exactly once per bit plane.
\<close>

theorem frame_coverage:
  assumes "0 < ARRAY_ROWS g" and "ARRAY_COLS g \<le> 127" and "NUM_COLORS g \<le> 127"
  shows "\<exists>frame. run_ISR h g (4 * unat (ARRAY_ROWS g)) isr_init = Some (frame, isr_init) \<and>
           length frame = 4 * unat (ARRAY_ROWS g) \<and>
           row_enables (concat (map snd frame)) =
             concat (replicate 4 (map int [0..<unat (ARRAY_ROWS g)])) \<and>
           (\<forall>p<4. rows_enabled_in_plane p frame = map int [0..<unat (ARRAY_ROWS g)]) \<and>
           (\<forall>r<unat (ARRAY_ROWS g).
              count_list (row_enables (concat (map snd frame))) (int r) = 4 \<and>
              (\<forall>p<4. count_list (rows_enabled_in_plane p frame) (int r) = 1))"
proof -
  define R where "R = unat (ARRAY_ROWS g)"
  define frame where "frame = map (\<lambda>j. (frame_state R j, isr_events h g (frame_state R j))) [0..<4 * R]"
  have R0: "0 < R" using assms by (simp add: R_def word_less_nat_alt)
  have run: "run_ISR h g (4 * R) isr_init = Some (frame, isr_init)"
    using run_ISR_from_init[OF assms, of h "4 * R"] frame_state_full[OF R0]
    by (simp add: frame_def R_def)
  have len: "length frame = 4 * R" by (simp add: frame_def)
  have all: "row_enables (concat (map snd frame)) = concat (replicate 4 (map int [0..<R]))"
    using frame_row_enables[OF assms(1), of h 4] by (simp add: frame_def R_def)
  have pl: "rows_enabled_in_plane p frame = map int [0..<R]" if "p < 4" for p
    using frame_rows_in_plane[OF assms(1) that, of h] by (simp add: frame_def R_def)
  have c4: "count_list (row_enables (concat (map snd frame))) (int r) = 4" if "r < R" for r
    unfolding all using count_list_rows[OF that] by (simp add: numeral_eq_Suc)
  have c1: "count_list (rows_enabled_in_plane p frame) (int r) = 1" if "r < R" "p < 4" for r p
    using pl[OF that(2)] count_list_rows[OF that(1)] by simp
  show ?thesis
    unfolding R_def[symmetric] using run len all pl c4 c1 by blast
qed


text \<open>
  C3 on a matrix of 2 rows, 8 columns, 1 colour: eight invocations, rows 0, 1 four
  times over.
\<close>

theorem frame_coverage_witness:
  "(0::8 word) < 2 \<and> (8::8 word) \<le> 127 \<and> (1::8 word) \<le> 127 \<and>
   (\<forall>h g. \<exists>frame.
      run_ISR h (g\<lparr>ARRAY_ROWS := 2, ARRAY_COLS := 8, NUM_COLORS := 1\<rparr>) 8 isr_init
        = Some (frame, isr_init) \<and>
      length frame = 8 \<and>
      row_enables (concat (map snd frame)) = [0, 1, 0, 1, 0, 1, 0, 1] \<and>
      rows_enabled_in_plane 2 frame = [0, 1] \<and>
      count_list (row_enables (concat (map snd frame))) 1 = 4 \<and>
      count_list (rows_enabled_in_plane 2 frame) 1 = 1)"
proof -
  have "\<exists>frame.
      run_ISR h (g\<lparr>ARRAY_ROWS := 2, ARRAY_COLS := 8, NUM_COLORS := 1\<rparr>) 8 isr_init
        = Some (frame, isr_init) \<and>
      length frame = 8 \<and>
      row_enables (concat (map snd frame)) = [0, 1, 0, 1, 0, 1, 0, 1] \<and>
      rows_enabled_in_plane 2 frame = [0, 1] \<and>
      count_list (row_enables (concat (map snd frame))) 1 = 4 \<and>
      count_list (rows_enabled_in_plane 2 frame) 1 = 1" for h g
  proof -
    from frame_coverage[of "g\<lparr>ARRAY_ROWS := 2, ARRAY_COLS := 8, NUM_COLORS := 1\<rparr>" h]
    obtain frame where
      f: "run_ISR h (g\<lparr>ARRAY_ROWS := 2, ARRAY_COLS := 8, NUM_COLORS := 1\<rparr>) 8 isr_init
            = Some (frame, isr_init)"
        "length frame = 8"
        "row_enables (concat (map snd frame)) = concat (replicate 4 (map int [0..<2]))"
        "\<forall>p<4. rows_enabled_in_plane p frame = map int [0..<2]"
      by auto
    have u2: "map int [0..<2] = [0, 1]" by (simp add: upt_rec)
    have r: "rows_enabled_in_plane 2 frame = [0, 1]" using f(4) u2 by simp
    have a: "row_enables (concat (map snd frame)) = [0, 1, 0, 1, 0, 1, 0, 1]"
      using f(3) u2 by (simp add: numeral_eq_Suc)
    show ?thesis using f(1,2) r a by (intro exI[of _ frame]) simp
  qed
  then show ?thesis by simp
qed

text \<open>
  C4, as amended. After any number \<open>n\<close> of invocations from the initial statics, on
  a matrix with at least one row (and dimensions for which the interrupt returns):
  the row is in \<open>[0, R)\<close>, the mask is one of 1, 2, 4, 8, the plane index is below
  4, and the mask is \<open>1 << plane_index\<close>. The row is \<open>n mod R\<close> and the plane index
  \<open>(n div R) mod 4\<close>: the index goes up and the mask doubles at each row wrap, and
  both start again after the fourth pass.
\<close>

theorem refresh_state_invariant:
  assumes "0 < ARRAY_ROWS g" and "ARRAY_COLS g \<le> 127" and "NUM_COLORS g \<le> 127"
  shows "\<exists>frame s. run_ISR h g n isr_init = Some (frame, s) \<and>
           row s < ARRAY_ROWS g \<and> pwm s \<in> {1, 2, 4, 8} \<and> isr_freq_offset s < 4 \<and>
           pwm s = push_bit (unat (isr_freq_offset s)) 1 \<and>
           unat (row s) = n mod unat (ARRAY_ROWS g) \<and>
           unat (isr_freq_offset s) = (n div unat (ARRAY_ROWS g)) mod 4"
proof -
  let ?s = "frame_state (unat (ARRAY_ROWS g)) n"
  have inv: "refresh_inv g ?s" by (rule frame_state_inv[OF assms(1)])
  then have o: "isr_freq_offset ?s < 4" and p: "pwm ?s = push_bit (unat (isr_freq_offset ?s)) 1"
    and r: "row ?s < ARRAY_ROWS g"
    by (simp_all add: refresh_inv_def)
  have m: "pwm ?s \<in> {1, 2, 4, 8}"
    using word8_less_4_cases[OF o] p by auto
  have "unat (ARRAY_ROWS g) < 256" "0 < unat (ARRAY_ROWS g)"
    using unsigned_less[of "ARRAY_ROWS g", where ?'a = nat] assms(1)
    by (simp_all add: word_less_nat_alt)
  then have "n mod unat (ARRAY_ROWS g) < 256"
    using mod_less_divisor[of "unat (ARRAY_ROWS g)" n] by linarith
  then have ur: "unat (row ?s) = n mod unat (ARRAY_ROWS g)"
    by (simp add: frame_state_def unat_of_nat)
  have uo: "unat (isr_freq_offset ?s) = (n div unat (ARRAY_ROWS g)) mod 4"
    by (simp add: frame_state_def unat_of_nat)
  show ?thesis
    using run_ISR_from_init[OF assms, of h n] r m o p ur uo by blast
qed

text \<open>
  C4 on an 8x8 matrix with 3 colours after 20 invocations: row 4, plane index 2,
  mask 4.
\<close>

theorem refresh_state_invariant_witness:
  "(0::8 word) < 8 \<and> (8::8 word) \<le> 127 \<and> (3::8 word) \<le> 127 \<and>
   (\<forall>h g. \<exists>frame s.
      run_ISR h (g\<lparr>ARRAY_ROWS := 8, ARRAY_COLS := 8, NUM_COLORS := 3\<rparr>) 20 isr_init
        = Some (frame, s) \<and>
      unat (row s) = 4 \<and> unat (isr_freq_offset s) = 2 \<and> pwm s = 4)"
proof -
  have "\<exists>frame s.
      run_ISR h (g\<lparr>ARRAY_ROWS := 8, ARRAY_COLS := 8, NUM_COLORS := 3\<rparr>) 20 isr_init
        = Some (frame, s) \<and>
      unat (row s) = 4 \<and> unat (isr_freq_offset s) = 2 \<and> pwm s = 4" for h g
  proof -
    from refresh_state_invariant[of "g\<lparr>ARRAY_ROWS := 8, ARRAY_COLS := 8, NUM_COLORS := 3\<rparr>" h 20]
    obtain frame s where
      f: "run_ISR h (g\<lparr>ARRAY_ROWS := 8, ARRAY_COLS := 8, NUM_COLORS := 3\<rparr>) 20 isr_init
            = Some (frame, s)"
        "pwm s = push_bit (unat (isr_freq_offset s)) 1"
        "unat (row s) = 4" "unat (isr_freq_offset s) = 2"
      by auto
    then show ?thesis by (intro exI[of _ frame] exI[of _ s]) simp
  qed
  then show ?thesis by simp
qed

text \<open>
  C4 as stated fails: on an 8x8 matrix the eight invocations of the first pass leave
  plane index 1 and mask 2, and \<open>1 << (2 * 1)\<close> is 4.
\<close>

theorem claimed_mask_invariant_fails:
  "\<forall>h g. \<exists>frame s.
      run_ISR h (g\<lparr>ARRAY_ROWS := 8, ARRAY_COLS := 8, NUM_COLORS := 1\<rparr>) 8 isr_init
        = Some (frame, s) \<and>
      row s = 0 \<and> pwm s = 2 \<and> isr_freq_offset s = 1 \<and>
      pwm s \<noteq> push_bit (2 * unat (isr_freq_offset s)) 1"
proof (intro allI)
  fix h g
  have "run_ISR h (g\<lparr>ARRAY_ROWS := 8, ARRAY_COLS := 8, NUM_COLORS := 1\<rparr>) 8 isr_init =
      Some (map (\<lambda>j. (frame_state 8 j,
                 isr_events h (g\<lparr>ARRAY_ROWS := 8, ARRAY_COLS := 8, NUM_COLORS := 1\<rparr>) (frame_state 8 j))) [0..<8],
            frame_state 8 8)"
    using run_ISR_from_init[of "g\<lparr>ARRAY_ROWS := 8, ARRAY_COLS := 8, NUM_COLORS := 1\<rparr>" h 8]
    by simp
  moreover have "frame_state 8 8 = \<lparr>row = 0, pwm = 2, isr_freq_offset = 1\<rparr>"
    by (simp add: frame_state_def)
  ultimately show "\<exists>frame s.
      run_ISR h (g\<lparr>ARRAY_ROWS := 8, ARRAY_COLS := 8, NUM_COLORS := 1\<rparr>) 8 isr_init
        = Some (frame, s) \<and>
      row s = 0 \<and> pwm s = 2 \<and> isr_freq_offset s = 1 \<and>
      pwm s \<noteq> push_bit (2 * unat (isr_freq_offset s)) 1"
    by simp
qed

section \<open>begin, the period schedule and the column writes\<close>

lemma word8_of_nat_less: "i < unat (n :: 8 word) \<Longrightarrow> (of_nat i :: 8 word) < n"
  by (simp add: word_less_nat_alt unat_of_nat) 

lemma uint_of_nat_small: "i < 256 \<Longrightarrow> uint (of_nat i :: 8 word) = int i"
  by (simp add: uint_nat unat_of_nat)

text \<open>
  The loops of \<^verbatim>\<open>begin\<close> return, with the closed form as their trace; the
  pre-clocking loop does so when the matrix has fewer than 255 rows.
\<close>

lemma unat_of_nat_small: "i < 256 \<Longrightarrow> unat (of_nat i :: 8 word) = i"
  by (simp add: unat_of_nat)

lemma begin_rows_run:
  "i \<le> unat n \<Longrightarrow> begin_rows n (of_nat i) = concat (map row_setup_events [i..<unat n])"
proof (induction "unat n - i" arbitrary: i)
  case 0
  then have "i = unat n" by linarith
  then show ?case by (subst begin_rows.simps) simp
next
  case (Suc k)
  from Suc have lt: "i < unat n" by linarith
  have "unat n < 256" using unsigned_less[of n, where ?'a = nat] by simp
  with lt have u: "uint (of_nat i :: 8 word) = int i" by (intro uint_of_nat_small) simp
  have IH: "begin_rows n (of_nat (Suc i)) = concat (map row_setup_events [Suc i..<unat n])"
    using Suc lt by (intro Suc.hyps) auto
  have nxt: "(of_nat i :: 8 word) + 1 = of_nat (Suc i)" by simp
  show ?case
    apply (subst begin_rows.simps)
    apply (simp only: word8_of_nat_less[OF lt] if_True nxt IH u)
    apply (simp add: upt_conv_Cons lt row_setup_events_def)
    done
qed

lemma begin_cols_run:
  "i \<le> unat n \<Longrightarrow> begin_cols n (of_nat i) = concat (map col_setup_events [i..<unat n])"
proof (induction "unat n - i" arbitrary: i)
  case 0
  then have "i = unat n" by linarith
  then show ?case by (subst begin_cols.simps) simp
next
  case (Suc k)
  from Suc have lt: "i < unat n" by linarith
  have "unat n < 256" using unsigned_less[of n, where ?'a = nat] by simp
  with lt have u: "uint (of_nat i :: 8 word) = int i" by (intro uint_of_nat_small) simp
  have IH: "begin_cols n (of_nat (Suc i)) = concat (map col_setup_events [Suc i..<unat n])"
    using Suc lt by (intro Suc.hyps) auto
  have nxt: "(of_nat i :: 8 word) + 1 = of_nat (Suc i)" by simp
  show ?case
    apply (subst begin_cols.simps)
    apply (simp only: word8_of_nat_less[OF lt] if_True nxt IH u)
    apply (simp add: upt_conv_Cons lt col_setup_events_def)
    done
qed

lemma begin_sr_clock_run:
  assumes "n < 255" and "i \<le> unat n + 1"
  shows "begin_sr_clock h n (of_nat i) out =
         Some (out @ concat (map (clock_events h) [i..<unat n + 1]))"
  using assms(2)
proof (induction "unat n + 1 - i" arbitrary: i out)
  case 0
  then have i: "i = unat n + 1" by linarith
  have n: "unat n < 255" using assms(1) by (simp add: word_less_nat_alt)
  then have "i < 256" using i by linarith
  then have "unat (of_nat i :: 8 word) = i" by (rule unat_of_nat_small)
  then have "\<not> (of_nat i :: 8 word) \<le> n" unfolding word_le_nat_alt using i by linarith
  then show ?case using i by (subst begin_sr_clock.simps) simp
next
  case (Suc k)
  from Suc have lt: "i < unat n + 1" by linarith
  have n: "unat n < 255" using assms(1) by (simp add: word_less_nat_alt)
  then have "i < 256" using lt by linarith
  then have "unat (of_nat i :: 8 word) = i" by (rule unat_of_nat_small)
  then have c: "(of_nat i :: 8 word) \<le> n" unfolding word_le_nat_alt using lt by linarith
  have IH: "begin_sr_clock h n (of_nat (Suc i)) (out @ clock_events h i) =
      Some ((out @ clock_events h i) @ concat (map (clock_events h) [Suc i..<unat n + 1]))"
    using Suc lt by (intro Suc.hyps) auto
  have nxt: "(of_nat i :: 8 word) + 1 = of_nat (Suc i)" by simp
  have ce: "[DigitalWrite (SR_PIN (CLK h)) LOW,
      DigitalWrite (SR_PIN (DATA h)) (if (of_nat i :: 8 word) AND 1 \<noteq> 0 then HIGH else LOW),
      DigitalWrite (SR_PIN (CLK h)) HIGH] = clock_events h i"
    by (simp add: clock_events_def)
  have up: "[i..<unat n + 1] = i # [Suc i..<unat n + 1]" using lt by (simp add: upt_conv_Cons)
  show ?case
    apply (subst begin_sr_clock.simps)
    apply (simp only: c if_True nxt ce IH up)
    apply simp
    done
qed

lemma begin_sr_run:
  assumes "num_rows m < 255"
  shows "begin_sr h m pins out = Some (out @ concat (map (sr_setup_events h m) pins))"
proof (induction pins arbitrary: out)
  case Nil
  show ?case by simp
next
  case (Cons pin pins)
  show ?case
  proof (cases "SR_PINS m pin = 255")
    case True
    then show ?thesis using Cons.IH[of out] by (simp add: sr_setup_events_def)
  next
    case False
    let ?o1 = "out @ [PinMode_OUTPUT (SR_PIN pin), PinMode_OUTPUT (SR_PIN (DATA h)),
                      PinMode_OUTPUT (SR_PIN (CLK h)), DigitalWrite (SR_PIN pin) LOW]"
    let ?o2 = "?o1 @ concat (map (clock_events h) [0..<unat (num_rows m) + 1])"
    have c: "begin_sr_clock h (num_rows m) 0 ?o1 = Some ?o2"
      using begin_sr_clock_run[OF assms, of 0 h ?o1] by simp
    have s: "sr_setup_events h m pin =
        [PinMode_OUTPUT (SR_PIN pin), PinMode_OUTPUT (SR_PIN (DATA h)),
         PinMode_OUTPUT (SR_PIN (CLK h)), DigitalWrite (SR_PIN pin) LOW]
        @ concat (map (clock_events h) [0..<unat (num_rows m) + 1])
        @ [DigitalWrite (SR_PIN pin) HIGH]"
      using False by (simp add: sr_setup_events_def)
    have "begin_sr h m (pin # pins) out =
          begin_sr h m pins (?o2 @ [DigitalWrite (SR_PIN pin) HIGH])"
      using False c by simp
    also have "\<dots> = Some ((?o2 @ [DigitalWrite (SR_PIN pin) HIGH])
                          @ concat (map (sr_setup_events h m) pins))"
      by (rule Cons.IH)
    also have "\<dots> = Some (out @ concat (map (sr_setup_events h m) (pin # pins)))"
      by (simp only: s list.map concat.simps append_assoc)
    finally show ?thesis .
  qed
qed

lemma begin_returns:
  assumes "num_rows m < 255"
  shows "DirectMatrix_begin h m sr_pins ISR_freq =
         Some (begin_events h m sr_pins ISR_freq,
               m\<lparr>SR_PINS := sr_pins,
                 ISR_FREQ := (ISR_FREQ m)(0 := ISR_freq, 1 := push_bit 1 ISR_freq,
                                          2 := push_bit 2 ISR_freq, 3 := push_bit 3 ISR_freq)\<rparr>)"
proof -
  let ?m = "m\<lparr>SR_PINS := sr_pins,
                 ISR_FREQ := (ISR_FREQ m)(0 := ISR_freq, 1 := push_bit 1 ISR_freq,
                                          2 := push_bit 2 ISR_freq, 3 := push_bit 3 ISR_freq)\<rparr>"
  have r: "begin_rows (num_rows ?m) 0 = concat (map row_setup_events [0..<unat (num_rows m)])"
    using begin_rows_run[of 0 "num_rows m"] by simp
  have c: "begin_cols (num_cols ?m) 0 = concat (map col_setup_events [0..<unat (num_cols m)])"
    using begin_cols_run[of 0 "num_cols m"] by simp
  have e: "sr_setup_events h ?m = sr_setup_events h (m\<lparr>SR_PINS := sr_pins\<rparr>)"
    by (rule ext) (simp add: sr_setup_events_def)
  have "num_rows ?m < 255" using assms by simp
  note sr = begin_sr_run[OF this, of h "[0, 1, 2]", unfolded e]
  have f0: "ISR_FREQ ?m 0 = ISR_freq" by simp
  show ?thesis
    unfolding DirectMatrix_begin_def Let_def r c sr f0 begin_events_def
    by simp
qed

lemma of_nat8_eq_0: "i < 256 \<Longrightarrow> (of_nat i :: 8 word) = 0 \<longleftrightarrow> i = 0"
  using unat_of_nat_small[of i] word_unat_eq_iff[of "of_nat i :: 8 word" 0] by auto

lemma frame_state_row_0:
  assumes "0 < ARRAY_ROWS g"
  shows "row (frame_state (unat (ARRAY_ROWS g)) j) = 0 \<longleftrightarrow> j mod unat (ARRAY_ROWS g) = 0"
proof -
  have "unat (ARRAY_ROWS g) < 256" "0 < unat (ARRAY_ROWS g)"
    using unsigned_less[of "ARRAY_ROWS g", where ?'a = nat] assms
    by (simp_all add: word_less_nat_alt)
  then have "j mod unat (ARRAY_ROWS g) < 256"
    using mod_less_divisor[of "unat (ARRAY_ROWS g)" j] by linarith
  from of_nat8_eq_0[OF this] show ?thesis by (simp add: frame_state_def)
qed

lemma frame_set_periods:
  assumes "0 < ARRAY_ROWS g"
  shows "set_periods (isr_events h g (frame_state (unat (ARRAY_ROWS g)) j)) =
         (if j mod unat (ARRAY_ROWS g) = 0
          then [ISR_FREQ g ((j div unat (ARRAY_ROWS g)) mod 4)] else [])"
  using frame_state_row_0[OF assms, of j]
  by (simp add: set_periods_isr_events) (simp add: frame_state_def unat_of_nat)

lemma frame_all_set_periods:
  assumes "0 < ARRAY_ROWS g"
  shows "set_periods (concat (map snd (map (\<lambda>j. (frame_state (unat (ARRAY_ROWS g)) j,
                          isr_events h g (frame_state (unat (ARRAY_ROWS g)) j))) [0..<4 * unat (ARRAY_ROWS g)]))) =
         [ISR_FREQ g 0, ISR_FREQ g 1, ISR_FREQ g 2, ISR_FREQ g 3]"
proof -
  let ?R = "unat (ARRAY_ROWS g)"
  have R0: "0 < ?R" using assms by (simp add: word_less_nat_alt)
  let ?F = "\<lambda>q i. if i = 0 then [ISR_FREQ g (q mod 4)] else []"
  have "set_periods (concat (map snd (map (\<lambda>j. (frame_state ?R j,
                          isr_events h g (frame_state ?R j))) [0..<4 * ?R]))) =
        concat (map (\<lambda>j. ?F (j div ?R) (j mod ?R)) [0..<4 * ?R])"
    by (simp only: set_periods_concat map_map o_def snd_conv frame_set_periods[OF assms])
  also have "\<dots> = concat (concat (map (\<lambda>q. map (?F q) [0..<?R]) [0..<4]))"
    using frame_blocks[OF R0, of ?F 4] by simp
  also have "\<dots> = [ISR_FREQ g 0, ISR_FREQ g 1, ISR_FREQ g 2, ISR_FREQ g 3]"
  proof -
    have nil: "concat (map (?F q) [Suc 0..<n]) = []" for q n
      by (induction n) auto
    have sel: "concat (map (?F q) [0..<?R]) = [ISR_FREQ g (q mod 4)]" for q
      using R0 nil[of q ?R] by (simp add: upt_conv_Cons)
    show ?thesis by (simp add: upt_4 sel del: upt_Suc)
  qed
  finally show ?thesis .
qed

text \<open>
  C1. Period schedule: after the constructor and \<^verbatim>\<open>begin\<close> with base period
  \<open>base\<close>, the table holds \<open>T[i] = base << i\<close>; the \<open>4 * R\<close> invocations of one frame
  all return; invocation \<open>j\<close> starts with row 0 exactly when \<open>j mod R = 0\<close> (the
  start of pass \<open>j div R\<close>) and then calls \<^verbatim>\<open>setPeriod\<close> once, with \<open>T[0] << (j div R)\<close>,
  and otherwise not at all; over the frame the calls are \<open>T[0], T[1], T[2], T[3]\<close> in
  this order.
\<close>

theorem period_schedule:
  assumes "0 < R" and "R < 255" and "C \<le> 127" and "K \<le> 127"
  shows "\<exists>m0 tr0 m frame.
           DirectMatrix_ctor g0 (Some mem) R C K = Some m0 \<and>
           DirectMatrix_begin h m0 sr_pins base = Some (tr0, m) \<and>
           (\<forall>i<4. ISR_FREQ m i = push_bit i base) \<and>
           run_ISR h m (4 * unat R) isr_init = Some (frame, isr_init) \<and>
           length frame = 4 * unat R \<and>
           (\<forall>j<4 * unat R.
              (row (fst (frame ! j)) = 0 \<longleftrightarrow> j mod unat R = 0) \<and>
              set_periods (snd (frame ! j)) =
                (if row (fst (frame ! j)) = 0 then [push_bit (j div unat R) (ISR_FREQ m 0)]
                 else [])) \<and>
           set_periods (concat (map snd frame)) =
             [ISR_FREQ m 0, ISR_FREQ m 1, ISR_FREQ m 2, ISR_FREQ m 3]"
proof -
  define m0 where "m0 = g0\<lparr>num_rows := R, num_cols := C, ARRAY_ROWS := R, ARRAY_COLS := C,
                           NUM_COLORS := K, MATRIX := mem\<rparr>"
  define m where "m = m0\<lparr>SR_PINS := sr_pins,
                 ISR_FREQ := (ISR_FREQ m0)(0 := base, 1 := push_bit 1 base,
                                           2 := push_bit 2 base, 3 := push_bit 3 base)\<rparr>"
  define frame where "frame = map (\<lambda>j. (frame_state (unat R) j, isr_events h m (frame_state (unat R) j))) [0..<4 * unat R]"
  have dims: "ARRAY_ROWS m = R" "ARRAY_COLS m = C" "NUM_COLORS m = K" "num_rows m0 = R"
    by (simp_all add: m_def m0_def)
  have R0: "0 < unat R" using assms(1) by (simp add: word_less_nat_alt)
  have ctor: "DirectMatrix_ctor g0 (Some mem) R C K = Some m0"
    by (simp add: DirectMatrix_ctor_def m0_def)
  have beg: "DirectMatrix_begin h m0 sr_pins base = Some (begin_events h m0 sr_pins base, m)"
    using begin_returns[of m0 h sr_pins base] assms(2) dims(4) by (simp add: m_def)
  have T: "ISR_FREQ m i = push_bit i base" if "i < 4" for i
  proof -
    from that have "i = 0 \<or> i = 1 \<or> i = 2 \<or> i = 3" by linarith
    then show ?thesis by (auto simp: m_def)
  qed
  have run: "run_ISR h m (4 * unat R) isr_init = Some (frame, isr_init)"
    using run_ISR_from_init[of m h "4 * unat R"] assms frame_state_full[OF R0]
    by (simp add: dims frame_def)
  have len: "length frame = 4 * unat R" by (simp add: frame_def)
  have each: "(row (fst (frame ! j)) = 0 \<longleftrightarrow> j mod unat R = 0) \<and>
              set_periods (snd (frame ! j)) =
                (if row (fst (frame ! j)) = 0 then [push_bit (j div unat R) (ISR_FREQ m 0)]
                 else [])" if "j < 4 * unat R" for j
  proof -
    have fj: "frame ! j = (frame_state (unat R) j, isr_events h m (frame_state (unat R) j))"
      using that by (simp add: frame_def)
    have "j div unat R < 4" using that R0 by (simp add: less_mult_imp_div_less mult.commute)
    then have d: "(j div unat R) mod 4 = j div unat R" and
      f: "ISR_FREQ m (j div unat R) = push_bit (j div unat R) (ISR_FREQ m 0)"
      using T[of "j div unat R"] T[of 0] by simp_all
    show ?thesis
      using frame_state_row_0[of m j] frame_set_periods[of m h j] assms(1)
      by (simp add: fj dims d f)
  qed
  have all: "set_periods (concat (map snd frame)) =
             [ISR_FREQ m 0, ISR_FREQ m 1, ISR_FREQ m 2, ISR_FREQ m 3]"
    using frame_all_set_periods[of m h] assms(1) by (simp add: dims frame_def)
  have T': "\<forall>i<4. ISR_FREQ m i = push_bit i base" using T by blast
  have each': "\<forall>j<4 * unat R.
              (row (fst (frame ! j)) = 0 \<longleftrightarrow> j mod unat R = 0) \<and>
              set_periods (snd (frame ! j)) =
                (if row (fst (frame ! j)) = 0 then [push_bit (j div unat R) (ISR_FREQ m 0)]
                 else [])"
    using each by blast
  show ?thesis
    apply (intro exI conjI)
          apply (rule ctor)
         apply (rule beg)
        apply (rule T')
       apply (rule run)
      apply (rule len)
     apply (rule each')
    apply (rule all)
    done
qed


text \<open>
  C1 on an 8x8 matrix with one colour: invocation 16 starts pass 2 and sets
  \<open>base << 2\<close>, invocation 17 sets nothing.
\<close>

theorem period_schedule_witness:
  "(0::8 word) < 8 \<and> (8::8 word) < 255 \<and> (8::8 word) \<le> 127 \<and> (1::8 word) \<le> 127 \<and>
   (\<forall>g0 mem h sr_pins base. \<exists>m0 tr0 m frame.
      DirectMatrix_ctor g0 (Some mem) 8 8 1 = Some m0 \<and>
      DirectMatrix_begin h m0 sr_pins base = Some (tr0, m) \<and>
      run_ISR h m 32 isr_init = Some (frame, isr_init) \<and>
      set_periods (snd (frame ! 16)) = [push_bit 2 base] \<and>
      set_periods (snd (frame ! 17)) = [] \<and>
      set_periods (concat (map snd frame)) =
        [base, push_bit 1 base, push_bit 2 base, push_bit 3 base])"
proof -
  have "\<exists>m0 tr0 m frame.
      DirectMatrix_ctor g0 (Some mem) 8 8 1 = Some m0 \<and>
      DirectMatrix_begin h m0 sr_pins base = Some (tr0, m) \<and>
      run_ISR h m 32 isr_init = Some (frame, isr_init) \<and>
      set_periods (snd (frame ! 16)) = [push_bit 2 base] \<and>
      set_periods (snd (frame ! 17)) = [] \<and>
      set_periods (concat (map snd frame)) =
        [base, push_bit 1 base, push_bit 2 base, push_bit 3 base]" for g0 mem h sr_pins base
  proof -
    from period_schedule[of 8 8 1 g0 mem h sr_pins base]
    obtain m0 tr0 m frame where
      f: "DirectMatrix_ctor g0 (Some mem) 8 8 1 = Some m0"
         "DirectMatrix_begin h m0 sr_pins base = Some (tr0, m)"
         "\<forall>i<4. ISR_FREQ m i = push_bit i base"
         "run_ISR h m 32 isr_init = Some (frame, isr_init)"
         "\<forall>j<32. (row (fst (frame ! j)) = 0 \<longleftrightarrow> j mod 8 = 0) \<and>
              set_periods (snd (frame ! j)) =
                (if row (fst (frame ! j)) = 0 then [push_bit (j div 8) (ISR_FREQ m 0)] else [])"
         "set_periods (concat (map snd frame)) =
             [ISR_FREQ m 0, ISR_FREQ m 1, ISR_FREQ m 2, ISR_FREQ m 3]"
      by auto
    have T: "ISR_FREQ m 0 = base" "ISR_FREQ m 1 = push_bit 1 base"
      "ISR_FREQ m 2 = push_bit 2 base" "ISR_FREQ m 3 = push_bit 3 base"
      using f(3) by simp_all
    have p16: "set_periods (snd (frame ! 16)) = [push_bit 2 base]"
      using f(5)[rule_format, of 16] T by simp
    have p17: "set_periods (snd (frame ! 17)) = []"
      using f(5)[rule_format, of 17] by simp
    show ?thesis
      using f(1,2,4,6) T p16 p17 by (intro exI[of _ m0] exI[of _ tr0] exI[of _ m] exI[of _ frame]) simp
  qed
  then show ?thesis by simp
qed

lemma begin_events_col_pins:
  "PinMode_OUTPUT (COL_PIN k) \<in> set (begin_events h m sr_pins base) \<longleftrightarrow>
     0 \<le> k \<and> k < uint (num_cols m)"
  "DigitalWrite (COL_PIN k) LOW \<in> set (begin_events h m sr_pins base) \<longleftrightarrow>
     0 \<le> k \<and> k < uint (num_cols m)"
proof -
  have r: "(\<exists>i<unat (num_cols m). k = int i) \<longleftrightarrow> 0 \<le> k \<and> k < uint (num_cols m)"
    using uint_nat[of "num_cols m"] by (metis nat_less_iff of_nat_less_iff zero_le_imp_eq_int of_nat_0_le_iff)
  show "PinMode_OUTPUT (COL_PIN k) \<in> set (begin_events h m sr_pins base) \<longleftrightarrow>
     0 \<le> k \<and> k < uint (num_cols m)"
    unfolding r[symmetric]
    by (auto simp: begin_events_def row_setup_events_def col_setup_events_def
        sr_setup_events_def clock_events_def)
  show "DigitalWrite (COL_PIN k) LOW \<in> set (begin_events h m sr_pins base) \<longleftrightarrow>
     0 \<le> k \<and> k < uint (num_cols m)"
    unfolding r[symmetric]
    by (auto simp: begin_events_def row_setup_events_def col_setup_events_def
        sr_setup_events_def clock_events_def)
qed

text \<open>
  The writes of one invocation to one column pin.
\<close>

lemma writes_to_append: "writes_to p (xs @ ys) = writes_to p xs @ writes_to p ys"
  by (simp add: writes_to_def)

lemma writes_to_concat: "writes_to p (concat xss) = concat (map (writes_to p) xss)"
  by (induction xss) (simp_all add: writes_to_def)

lemma concat_single:
  assumes "i < n" and "\<And>j. j < n \<Longrightarrow> j \<noteq> i \<Longrightarrow> F j = []"
  shows "concat (map F [0..<n]) = F i"
proof -
  have split: "[0..<n] = [0..<i] @ i # [Suc i..<n]"
    using assms(1) by (metis le_add1 le_add_same_cancel1 less_imp_add_positive upt_add_eq_append upt_conv_Cons)
  have a: "concat (map F [0..<i]) = []" using assms by (intro concat_map_Nil) auto
  have b: "concat (map F [Suc i..<n]) = []" using assms by (intro concat_map_Nil) auto
  show ?thesis unfolding split by (simp add: a b)
qed

lemma writes_to_direct_row:
  "writes_to (COL_PIN k) (map (\<lambda>c. DigitalWrite (COL_PIN (int c + off)) (f c)) [0..<n]) =
     (if off \<le> k \<and> k < off + int n then [f (nat (k - off))] else [])"
proof (induction n)
  case 0
  show ?case by (simp add: writes_to_def)
next
  case (Suc n)
  have "writes_to (COL_PIN k) (map (\<lambda>c. DigitalWrite (COL_PIN (int c + off)) (f c)) [0..<Suc n]) =
        writes_to (COL_PIN k) (map (\<lambda>c. DigitalWrite (COL_PIN (int c + off)) (f c)) [0..<n])
        @ (if int n + off = k then [f n] else [])"
    by (simp add: writes_to_def)
  also have "\<dots> = (if off \<le> k \<and> k < off + int (Suc n) then [f (nat (k - off))] else [])"
    unfolding Suc.IH by (auto simp: nat_eq_iff)
  finally show ?case .
qed

lemma plane_offset:
  assumes "int j * uint (C :: 8 word) \<le> 127"
  shows "sint (of_nat j * C :: 8 word) = int j * uint C"
proof -
  have w: "of_nat j * C = (word_of_int (int j * uint C) :: 8 word)" by simp
  have "0 \<le> int j * uint C" by (rule mult_nonneg_nonneg) simp_all
  then have nn: "- 128 \<le> int j * uint C" by linarith
  have "sint (word_of_int (int j * uint C) :: 8 word) = signed_take_bit 7 (int j * uint C)"
    by (simp only: sint_sbintrunc') simp
  also have "\<dots> = int j * uint C"
    using assms nn by (intro signed_take_bit_int_eq_self) simp_all
  finally show ?thesis unfolding w .
qed


lemma writes_to_Nil: "(\<And>e. e \<in> set xs \<Longrightarrow> write_to p e = []) \<Longrightarrow> writes_to p xs = []"
  by (simp add: writes_to_def)

lemma same_plane:
  assumes "0 \<le> c" and "c < (C::int)" and "0 \<le> i" and "0 \<le> j"
  shows "(j * C \<le> i * C + c \<and> i * C + c < j * C + C) \<longleftrightarrow> j = i"
proof
  assume a: "j * C \<le> i * C + c \<and> i * C + c < j * C + C"
  have C0: "0 \<le> C" using assms by linarith
  show "j = i"
  proof (rule ccontr)
    assume "j \<noteq> i"
    then consider "j + 1 \<le> i" | "i + 1 \<le> j" by linarith
    then show False
    proof cases
      case 1
      then have "(j + 1) * C \<le> i * C" using C0 by (rule mult_right_mono)
      then show False using a assms by (simp add: algebra_simps)
    next
      case 2
      then have "(i + 1) * C \<le> j * C" using C0 by (rule mult_right_mono)
      then show False using a assms by (simp add: algebra_simps)
    qed
  qed
next
  assume "j = i"
  then show "j * C \<le> i * C + c \<and> i * C + c < j * C + C" using assms by simp
qed

lemma writes_to_plane:
  assumes "(uint (NUM_COLORS g) - 1) * uint (ARRAY_COLS g) \<le> 127"
    and "j < unat (NUM_COLORS g)" and "i < unat (NUM_COLORS g)" and "c < unat (ARRAY_COLS g)"
  shows "writes_to (COL_PIN (int i * uint (ARRAY_COLS g) + int c)) (plane_events h g s j) =
     (if j = i \<and> SR_PINS g (int i) = DINV h
      then [cell_level g s (push_bit (4 * i) (ucast (pwm s))) (int c)] else [])"
proof (cases "SR_PINS g (int j) = DINV h")
  case False
  have "writes_to (COL_PIN (int i * uint (ARRAY_COLS g) + int c)) (plane_events h g s j) = []"
    using False by (intro writes_to_Nil) (auto simp: plane_events_def sr_events_def split: if_splits)
  then show ?thesis using False by auto
next
  case True
  let ?C = "uint (ARRAY_COLS g)"
  have uC: "?C = int (unat (ARRAY_COLS g))" by (rule uint_nat)
  have uK: "uint (NUM_COLORS g) = int (unat (NUM_COLORS g))" by (rule uint_nat)
  have "int j \<le> uint (NUM_COLORS g) - 1" using assms(2) uK by linarith
  then have "int j * ?C \<le> (uint (NUM_COLORS g) - 1) * ?C"
    by (rule mult_right_mono) simp
  then have off: "sint (of_nat j * ARRAY_COLS g) = int j * ?C"
    using assms(1) by (intro plane_offset) linarith
  have pe: "plane_events h g s j =
      map (\<lambda>c'. DigitalWrite (COL_PIN (int c' + int j * ?C))
                   (cell_level g s (push_bit (4 * j) (ucast (pwm s))) (int c')))
          [0..<unat (ARRAY_COLS g)]"
    using True by (simp add: plane_events_def direct_events_def off)
  have sp: "(int j * ?C \<le> int i * ?C + int c \<and> int i * ?C + int c < int j * ?C + ?C) \<longleftrightarrow> int j = int i"
  proof -
    have "int c < ?C" using assms(4) uC by linarith
    then show ?thesis by (intro same_plane) simp_all
  qed
  show ?thesis
    unfolding pe writes_to_direct_row uC[symmetric]
    using sp True by auto
qed

lemma writes_to_isr_events:
  assumes "(uint (NUM_COLORS g) - 1) * uint (ARRAY_COLS g) \<le> 127"
    and "i < unat (NUM_COLORS g)" and "SR_PINS g (int i) = DINV h"
    and "c < unat (ARRAY_COLS g)"
  shows "writes_to (COL_PIN (int i * uint (ARRAY_COLS g) + int c)) (isr_events h g s) =
         [cell_level g s (push_bit (4 * i) (ucast (pwm s))) (int c)]"
proof -
  let ?p = "COL_PIN (int i * uint (ARRAY_COLS g) + int c)"
  have "concat (map (\<lambda>j. writes_to ?p (plane_events h g s j)) [0..<unat (NUM_COLORS g)]) =
        writes_to ?p (plane_events h g s i)"
    using assms writes_to_plane[OF assms(1) _ assms(2,4), of _ h s]
    by (intro concat_single) auto
  also have "\<dots> = [cell_level g s (push_bit (4 * i) (ucast (pwm s))) (int c)]"
    using writes_to_plane[OF assms(1) assms(2) assms(2,4), of h s] assms(3) by simp
  finally have planes:
    "writes_to ?p (concat (map (plane_events h g s) [0..<unat (NUM_COLORS g)])) =
       [cell_level g s (push_bit (4 * i) (ucast (pwm s))) (int c)]"
    by (simp only: writes_to_concat map_map o_def)
  have pre: "writes_to ?p (if row s = 0 then [Timer1_setPeriod v] else []) = []" for v
    by (simp add: writes_to_def)
  have rw: "writes_to ?p [DigitalWrite (ROW_PIN x) l] = []" for x l
    by (simp add: writes_to_def)
  show ?thesis
    unfolding isr_events_def writes_to_append planes pre rw by simp
qed

lemma plane_bit:
  fixes w :: "16 word"
  assumes "b < 4"
  shows "w AND push_bit (4 * i) (ucast ((2::8 word) ^ b)) \<noteq> 0 \<longleftrightarrow> bit w (4 * i + b)"
proof -
  have u: "(ucast ((2::8 word) ^ b) :: 16 word) = 2 ^ b"
    using assms by (intro bit_word_eqI) (auto simp: bit_simps)
  have "push_bit (4 * i) ((2::16 word) ^ b) = push_bit (4 * i + b) 1"
    by (simp add: push_bit_eq_mult power_add mult.commute)
  then have "w AND push_bit (4 * i) (ucast ((2::8 word) ^ b)) = (if bit w (4 * i + b) then push_bit (4 * i + b) 1 else 0)"
    unfolding u by (intro bit_word_eqI) (auto simp: bit_simps)
  moreover have "push_bit (4 * i + b) (1::16 word) \<noteq> 0" if "bit w (4 * i + b)"
  proof -
    have "4 * i + b < 16" using bit_imp_le_length[OF that] by simp
    then have t: "bit (push_bit (4 * i + b) (1::16 word)) (4 * i + b)"
      by (simp add: bit_push_bit_iff bit_exp_iff)
    show ?thesis
    proof
      assume "push_bit (4 * i + b) (1::16 word) = 0"
      with t have "bit (0::16 word) (4 * i + b)" by (simp only:)
      then show False by simp
    qed
  qed
  ultimately show ?thesis by auto
qed


text \<open>
  Column emission where \<^verbatim>\<open>col_pin_offset\<close> stays in range
  (\<open>(K - 1) * C \<le> 127\<close>, with at most 127 columns and colours): in an invocation
  that services row \<open>row s\<close> with plane mask \<open>pwm s\<close>, for a direct-drive colour
  plane \<open>i\<close> (its shift register entry is the sentinel) and a column \<open>c < C\<close>, the
  column pin \<open>i * C + c\<close> is written once, HIGH iff
  \<open>cell[row, c] & (mask << 4 * i) \<noteq> 0\<close>, else LOW; with mask \<open>1 << b\<close> that is bit
  \<open>4 * i + b\<close> of the cell.
\<close>

theorem bcm_column_emission:
  assumes "ARRAY_COLS g \<le> 127" and "NUM_COLORS g \<le> 127"
    and "(uint (NUM_COLORS g) - 1) * uint (ARRAY_COLS g) \<le> 127"
    and "i < unat (NUM_COLORS g)" and "SR_PINS g (int i) = DINV h"
    and "c < unat (ARRAY_COLS g)"
  shows "\<exists>out. DirectMatrix_RefreshPWMLine h g s = Some (out, isr_advance g s) \<and>
     writes_to (COL_PIN (int i * uint (ARRAY_COLS g) + int c)) out =
       [if MATRIX g (uint (row s) * uint (ARRAY_COLS g) + int c)
             AND push_bit (4 * i) (ucast (pwm s)) \<noteq> 0 then HIGH else LOW] \<and>
     (\<forall>b<4. pwm s = 2 ^ b \<longrightarrow>
        writes_to (COL_PIN (int i * uint (ARRAY_COLS g) + int c)) out =
          [if bit (MATRIX g (uint (row s) * uint (ARRAY_COLS g) + int c)) (4 * i + b)
           then HIGH else LOW])"
proof -
  let ?cell = "MATRIX g (uint (row s) * uint (ARRAY_COLS g) + int c)"
  have ret: "DirectMatrix_RefreshPWMLine h g s = Some (isr_events h g s, isr_advance g s)"
    by (rule RefreshPWMLine_returns[OF assms(1,2)])
  have w: "writes_to (COL_PIN (int i * uint (ARRAY_COLS g) + int c)) (isr_events h g s) =
       [if ?cell AND push_bit (4 * i) (ucast (pwm s)) \<noteq> 0 then HIGH else LOW]"
    using writes_to_isr_events[OF assms(3,4,5,6), of s] by (simp add: cell_level_def)
  have b: "writes_to (COL_PIN (int i * uint (ARRAY_COLS g) + int c)) (isr_events h g s) =
          [if bit ?cell (4 * i + b) then HIGH else LOW]" if "b < 4" "pwm s = 2 ^ b" for b
    unfolding w using plane_bit[OF that(1), of ?cell i] that(2) by simp
  show ?thesis using ret w b by blast
qed

text \<open>
  The same on two direct colours of 8 columns, row 3, mask 2, cell (3, 5) = 0x20:
  pin 13 goes HIGH.
\<close>

theorem bcm_column_emission_witness:
  "(8::8 word) \<le> 127 \<and> (2::8 word) \<le> 127 \<and> (uint (2::8 word) - 1) * uint (8::8 word) \<le> 127 \<and>
   (1::nat) < unat (2::8 word) \<and> (5::nat) < unat (8::8 word) \<and>
   (\<forall>h g. \<exists>out s'.
      DirectMatrix_RefreshPWMLine (h\<lparr>DINV := 255\<rparr>)
        (g\<lparr>ARRAY_COLS := 8, NUM_COLORS := 2, MATRIX := (\<lambda>k. if k = 29 then 0x20 else 0),
           SR_PINS := (\<lambda>k. 255)\<rparr>)
        \<lparr>row = 3, pwm = 2, isr_freq_offset = 1\<rparr> = Some (out, s') \<and>
      writes_to (COL_PIN 13) out = [HIGH])"
proof -
  have "\<exists>out s'.
      DirectMatrix_RefreshPWMLine (h\<lparr>DINV := 255\<rparr>)
        (g\<lparr>ARRAY_COLS := 8, NUM_COLORS := 2, MATRIX := (\<lambda>k. if k = 29 then 0x20 else 0),
           SR_PINS := (\<lambda>k. 255)\<rparr>)
        \<lparr>row = 3, pwm = 2, isr_freq_offset = 1\<rparr> = Some (out, s') \<and>
      writes_to (COL_PIN 13) out = [HIGH]" for h :: LED_Matrix_h and g :: DirectMatrix
  proof -
    let ?g = "g\<lparr>ARRAY_COLS := 8, NUM_COLORS := 2, MATRIX := (\<lambda>k. if k = 29 then 0x20 else 0),
           SR_PINS := (\<lambda>k. 255)\<rparr>"
    let ?s = "\<lparr>row = 3, pwm = 2, isr_freq_offset = 1\<rparr>"
    from bcm_column_emission[of ?g 1 "h\<lparr>DINV := 255\<rparr>" 5 ?s]
    obtain out where
      o: "DirectMatrix_RefreshPWMLine (h\<lparr>DINV := 255\<rparr>) ?g ?s = Some (out, isr_advance ?g ?s)"
         "writes_to (COL_PIN 13) out = [if (0x20 :: 16 word) AND push_bit 4 2 \<noteq> 0 then HIGH else LOW]"
      by auto
    have "(0x20 :: 16 word) AND push_bit 4 2 \<noteq> 0" by simp
    with o show ?thesis by auto
  qed
  then show ?thesis by simp
qed

text \<open>
  \<^verbatim>\<open>begin\<close> configures exactly the first \<open>num_cols\<close> entries of the column pin
  table, whatever the number of colours.
\<close>

lemma begin_configures_num_cols_pins:
  assumes "num_rows m < 255"
  shows "\<exists>tr m'. DirectMatrix_begin h m sr_pins base = Some (tr, m') \<and>
     (PinMode_OUTPUT (COL_PIN k) \<in> set tr \<longleftrightarrow> 0 \<le> k \<and> k < uint (num_cols m)) \<and>
     (DigitalWrite (COL_PIN k) LOW \<in> set tr \<longleftrightarrow> 0 \<le> k \<and> k < uint (num_cols m))"
  using begin_returns[OF assms, of h sr_pins base] begin_events_col_pins[of k h m sr_pins base]
  by simp

text \<open>
  C9 fails on the code for two direct colour planes of 8 columns: \<^verbatim>\<open>begin\<close>
  configures and clears the column pins 0 to 7 only, pin 8 gets neither
  \<^verbatim>\<open>pinMode\<close> nor a LOW, and the first invocation of the interrupt writes it.
\<close>

theorem begin_skips_second_colour_plane:
  "\<exists>m0 tr m out s.
      DirectMatrix_ctor g0 (Some mem) 8 8 2 = Some m0 \<and>
      DirectMatrix_begin (h\<lparr>DINV := 255\<rparr>) m0 (\<lambda>k. 255) base = Some (tr, m) \<and>
      PinMode_OUTPUT (COL_PIN 7) \<in> set tr \<and> DigitalWrite (COL_PIN 7) LOW \<in> set tr \<and>
      PinMode_OUTPUT (COL_PIN 8) \<notin> set tr \<and> DigitalWrite (COL_PIN 8) LOW \<notin> set tr \<and>
      DirectMatrix_RefreshPWMLine (h\<lparr>DINV := 255\<rparr>) m isr_init = Some (out, s) \<and>
      length (writes_to (COL_PIN 8) out) = 1"
proof -
  define m0 where "m0 = g0\<lparr>num_rows := 8, num_cols := 8, ARRAY_ROWS := 8, ARRAY_COLS := 8,
                           NUM_COLORS := 2, MATRIX := mem\<rparr>"
  define m where "m = m0\<lparr>SR_PINS := (\<lambda>k. 255),
                 ISR_FREQ := (ISR_FREQ m0)(0 := base, 1 := push_bit 1 base,
                                           2 := push_bit 2 base, 3 := push_bit 3 base)\<rparr>"
  let ?h = "h\<lparr>DINV := 255\<rparr>"
  let ?tr = "begin_events ?h m0 (\<lambda>k. 255) base"
  have ctor: "DirectMatrix_ctor g0 (Some mem) 8 8 2 = Some m0"
    by (simp add: DirectMatrix_ctor_def m0_def)
  have beg: "DirectMatrix_begin ?h m0 (\<lambda>k. 255) base = Some (?tr, m)"
    using begin_returns[of m0 ?h "\<lambda>k. 255" base] by (simp add: m_def m0_def)
  have c7: "PinMode_OUTPUT (COL_PIN 7) \<in> set ?tr" "DigitalWrite (COL_PIN 7) LOW \<in> set ?tr"
    and c8: "PinMode_OUTPUT (COL_PIN 8) \<notin> set ?tr" "DigitalWrite (COL_PIN 8) LOW \<notin> set ?tr"
    by (simp_all add: begin_events_col_pins m0_def)
  have isr: "DirectMatrix_RefreshPWMLine ?h m isr_init = Some (isr_events ?h m isr_init, isr_advance m isr_init)"
    by (rule RefreshPWMLine_returns) (simp_all add: m_def m0_def)
  have "writes_to (COL_PIN (int 1 * uint (ARRAY_COLS m) + int 0)) (isr_events ?h m isr_init) =
         [cell_level m isr_init (push_bit (4 * 1) (ucast (pwm isr_init))) (int 0)]"
    by (rule writes_to_isr_events) (simp_all add: m_def m0_def)
  then have w: "length (writes_to (COL_PIN 8) (isr_events ?h m isr_init)) = 1"
    by (simp add: m_def m0_def)
  show ?thesis
    apply (intro exI conjI)
           apply (rule ctor)
          apply (rule beg)
         apply (rule c7(1))
        apply (rule c7(2))
       apply (rule c8(1))
      apply (rule c8(2))
     apply (rule isr)
    apply (rule w)
    done
qed

section \<open>Row exclusivity\<close>

text \<open>
  How a trace moves the set of enabled rows.
\<close>

lemma exclusive_append:
  "exclusive low (xs @ ys) \<longleftrightarrow> exclusive low xs \<and> exclusive (fold rows_low xs low) ys"
  by (induction xs arbitrary: low) auto

lemma quiet_rows_low:
  assumes "row_enable_of e = []"
  shows "rows_low e {} = {}"
proof (cases e)
  case (DigitalWrite p l)
  then show ?thesis using assms by (cases p; cases l) auto
qed auto

lemma quiet_trace:
  assumes "\<And>e. e \<in> set xs \<Longrightarrow> row_enable_of e = []"
  shows "fold rows_low xs {} = {} \<and> exclusive {} xs"
  using assms by (induction xs) (auto simp: quiet_rows_low)

lemma column_rows_low: "is_column_write e \<Longrightarrow> rows_low e low = low"
  by (cases e rule: is_column_write.cases) auto

lemma column_trace:
  assumes "\<And>e. e \<in> set xs \<Longrightarrow> is_column_write e" and "card low \<le> 1"
  shows "fold rows_low xs low = low \<and> exclusive low xs"
  using assms by (induction xs) (auto simp: column_rows_low)

lemma row_setup_quiet: "e \<in> set (row_setup_events i) \<Longrightarrow> row_enable_of e = []"
  by (auto simp: row_setup_events_def)

lemma col_setup_quiet: "e \<in> set (col_setup_events i) \<Longrightarrow> row_enable_of e = []"
  by (auto simp: col_setup_events_def)

lemma clock_quiet: "e \<in> set (clock_events h i) \<Longrightarrow> row_enable_of e = []"
  by (auto simp: clock_events_def)

lemma sr_setup_quiet: "e \<in> set (sr_setup_events h m pin) \<Longrightarrow> row_enable_of e = []"
  by (auto simp: sr_setup_events_def dest: clock_quiet split: if_splits)

lemma begin_events_quiet: "e \<in> set (begin_events h m sr_pins base) \<Longrightarrow> row_enable_of e = []"
  unfolding begin_events_def
  by (auto dest: row_setup_quiet col_setup_quiet sr_setup_quiet)

lemma isr_events_exclusive:
  assumes "low \<subseteq> {sint (if row s = 0 then ARRAY_ROWS g - 1 else row s - 1)}"
  shows "exclusive low (isr_events h g s) \<and>
         fold rows_low (isr_events h g s) low = {uint (row s)}"
proof -
  let ?old = "sint (if row s = 0 then ARRAY_ROWS g - 1 else row s - 1)"
  let ?pre = "if row s = 0 then [Timer1_setPeriod (ISR_FREQ g (unat (isr_freq_offset s)))] else []"
  let ?cols = "concat (map (plane_events h g s) [0..<unat (NUM_COLORS g)])"
  have fin: "finite low" using assms by (rule finite_subset) simp
  have c1: "card low \<le> 1" using assms card_mono[of "{?old}" low] by simp
  have pre: "fold rows_low ?pre low = low" "exclusive low ?pre" using c1 by auto
  have blank: "rows_low (DigitalWrite (ROW_PIN ?old) HIGH) low = {}" using assms by auto
  have cols: "fold rows_low ?cols {} = {} \<and> exclusive {} ?cols"
    by (rule column_trace) (auto dest: plane_events_column)
  show ?thesis
    unfolding isr_events_def
    by (simp only: exclusive_append fold_append o_apply pre fold_simps exclusive.simps blank cols)
       simp
qed


lemma previous_row_nat:
  assumes "0 < n" and "n \<le> 128" and "r < n"
  shows "sint (if (of_nat r :: 8 word) = 0 then (of_nat n :: 8 word) - 1 else of_nat r - 1) =
         (int r - 1) mod int n"
proof (cases "r = 0")
  case True
  have "(of_nat n :: 8 word) - 1 = of_nat (n - 1)" using assms(1) by (simp add: of_nat_diff)
  moreover have "sint (of_nat (n - 1) :: 8 word) = int (n - 1)"
    using assms(2) by (intro sint_of_nat8) linarith
  moreover have "(- 1) mod int n = int n - 1"
    using assms(1) by (simp add: zmod_minus1)
  ultimately show ?thesis using True assms(1) by (simp add: of_nat_diff)
next
  case False
  have "r < 256" using assms by linarith
  then have z: "(of_nat r :: 8 word) \<noteq> 0" using False of_nat8_eq_0[of r] by simp
  have "(of_nat r :: 8 word) - 1 = of_nat (r - 1)" using False by (simp add: of_nat_diff)
  moreover have "sint (of_nat (r - 1) :: 8 word) = int (r - 1)"
    using assms by (intro sint_of_nat8) linarith
  moreover have "(int r - 1) mod int n = int r - 1"
    using False assms(3) by (intro mod_pos_pos_trivial) linarith+
  ultimately show ?thesis using z False by (simp add: of_nat_diff)
qed

lemma previous_row:
  assumes "0 < ARRAY_ROWS g" and "ARRAY_ROWS g \<le> 128"
  shows "sint (if row (frame_state (unat (ARRAY_ROWS g)) j) = 0 then ARRAY_ROWS g - 1
               else row (frame_state (unat (ARRAY_ROWS g)) j) - 1) =
         (int (j mod unat (ARRAY_ROWS g)) - 1) mod int (unat (ARRAY_ROWS g))"
proof -
  let ?R = "unat (ARRAY_ROWS g)"
  have R0: "0 < ?R" using assms(1) by (simp add: word_less_nat_alt)
  have R128: "?R \<le> 128" using assms(2) by (simp add: word_le_nat_alt)
  have lt: "j mod ?R < ?R" using R0 by simp
  have R: "ARRAY_ROWS g = of_nat ?R" by simp
  have r: "row (frame_state ?R j) = of_nat (j mod ?R)" by (simp add: frame_state_def)
  show ?thesis
    unfolding r using previous_row_nat[OF R0 R128 lt] by (simp only: R[symmetric])
qed

lemma next_previous_row:
  assumes "0 < (R::nat)"
  shows "(int (Suc j mod R) - 1) mod int R = int (j mod R)"
proof -
  have "(int (Suc j mod R) - 1) mod int R = (int (Suc j) mod int R - 1) mod int R"
    by (simp add: zmod_int)
  also have "\<dots> = (int (Suc j) - 1) mod int R"
    by (simp add: mod_diff_left_eq)
  also have "\<dots> = int (j mod R)" by (simp add: zmod_int)
  finally show ?thesis .
qed

lemma frame_exclusive:
  assumes "0 < ARRAY_ROWS g" and "ARRAY_ROWS g \<le> 128"
    and "low \<subseteq> {(int (k mod unat (ARRAY_ROWS g)) - 1) mod int (unat (ARRAY_ROWS g))}"
  shows "exclusive low
           (concat (map (\<lambda>j. isr_events h g (frame_state (unat (ARRAY_ROWS g)) j)) [k..<k + n]))"
  using assms(3)
proof (induction n arbitrary: k low)
  case 0
  show ?case by simp
next
  case (Suc n)
  let ?R = "unat (ARRAY_ROWS g)"
  let ?ev = "\<lambda>j. isr_events h g (frame_state ?R j)"
  have R0: "0 < ?R" using assms(1) by (simp add: word_less_nat_alt)
  have u: "[k..<k + Suc n] = k # [Suc k..<Suc k + n]" by (simp add: upt_conv_Cons)
  have one: "exclusive low (?ev k) \<and> fold rows_low (?ev k) low = {uint (row (frame_state ?R k))}"
    using Suc.prems previous_row[OF assms(1,2), of k] by (intro isr_events_exclusive) simp
  have "uint (row (frame_state ?R k)) = int (k mod ?R)"
    using uint_of_nat_mod8[OF assms(1), of k] by (simp add: frame_state_def)
  then have nxt: "fold rows_low (?ev k) low \<subseteq> {(int (Suc k mod ?R) - 1) mod int ?R}"
    using one next_previous_row[OF R0, of k] by simp
  show ?case
    unfolding u using one Suc.IH[OF nxt]
    by (simp add: exclusive_append)
qed

lemma isr_events_ordered:
  assumes "0 < ARRAY_ROWS g" and "ARRAY_ROWS g \<le> 128"
  shows "\<exists>pre cols.
     isr_events h g (frame_state (unat (ARRAY_ROWS g)) j) =
       pre @ [DigitalWrite (ROW_PIN ((uint (row (frame_state (unat (ARRAY_ROWS g)) j)) - 1)
                                      mod uint (ARRAY_ROWS g))) HIGH]
           @ cols
           @ [DigitalWrite (ROW_PIN (uint (row (frame_state (unat (ARRAY_ROWS g)) j)))) LOW] \<and>
     (\<forall>e\<in>set pre. \<not> is_pin_write e) \<and> (\<forall>e\<in>set cols. is_column_write e)"
proof -
  let ?s = "frame_state (unat (ARRAY_ROWS g)) j"
  let ?pre = "if row ?s = 0 then [Timer1_setPeriod (ISR_FREQ g (unat (isr_freq_offset ?s)))] else []"
  let ?cols = "concat (map (plane_events h g ?s) [0..<unat (NUM_COLORS g)])"
  have ur: "uint (row ?s) = int (j mod unat (ARRAY_ROWS g))"
    using uint_of_nat_mod8[OF assms(1), of j] by (simp add: frame_state_def)
  have uR: "uint (ARRAY_ROWS g) = int (unat (ARRAY_ROWS g))" by (rule uint_nat)
  have old: "sint (if row ?s = 0 then ARRAY_ROWS g - 1 else row ?s - 1) =
                  (uint (row ?s) - 1) mod uint (ARRAY_ROWS g)"
    unfolding ur uR by (rule previous_row[OF assms])
  have e: "isr_events h g ?s =
       ?pre @ [DigitalWrite (ROW_PIN ((uint (row ?s) - 1) mod uint (ARRAY_ROWS g))) HIGH]
           @ ?cols @ [DigitalWrite (ROW_PIN (uint (row ?s))) LOW]"
    unfolding isr_events_def old ..
  have p: "\<forall>e\<in>set ?pre. \<not> is_pin_write e" by simp
  have c: "\<forall>e\<in>set ?cols. is_column_write e" by (auto dest: plane_events_column)
  show ?thesis
    by (intro exI[of _ ?pre] exI[of _ ?cols] conjI) (rule e, rule p, rule c)
qed


lemma begin_events_rows_high:
  "r < unat (num_rows m) \<Longrightarrow>
   DigitalWrite (ROW_PIN (int r)) HIGH \<in> set (begin_events h m sr_pins base)"
  by (auto simp: begin_events_def row_setup_events_def)

lemma row_enables_quiet:
  assumes "\<And>e. e \<in> set xs \<Longrightarrow> row_enable_of e = []"
  shows "row_enables xs = []"
  using assms by (simp add: row_enables_def)

text \<open>
  Row exclusivity on a matrix of 1 to 128 rows (and dimensions for which the
  interrupt returns): take the trace of \<^verbatim>\<open>begin\<close> (which drives every row pin
  HIGH and none LOW) followed by any number \<open>n\<close> of invocations of the interrupt.
  After every event of it at most one row slot is at the enabled level (LOW). Each
  invocation is: no pin write, then the previous row \<open>(row - 1) mod R\<close> driven HIGH,
  then only column and shift register writes, then the current row driven LOW as
  its last event.
\<close>

theorem row_exclusivity:
  assumes "0 < R" and "R \<le> 128" and "C \<le> 127" and "K \<le> 127"
  shows "\<exists>m0 tr0 m frame s.
           DirectMatrix_ctor g0 (Some mem) R C K = Some m0 \<and>
           DirectMatrix_begin h m0 sr_pins base = Some (tr0, m) \<and>
           (\<forall>r<unat R. DigitalWrite (ROW_PIN (int r)) HIGH \<in> set tr0) \<and>
           row_enables tr0 = [] \<and>
           run_ISR h m n isr_init = Some (frame, s) \<and>
           length frame = n \<and>
           exclusive {} (tr0 @ concat (map snd frame)) \<and>
           (\<forall>j<n. \<exists>pre cols.
              snd (frame ! j) =
                pre @ [DigitalWrite (ROW_PIN ((uint (row (fst (frame ! j))) - 1) mod uint R)) HIGH]
                    @ cols
                    @ [DigitalWrite (ROW_PIN (uint (row (fst (frame ! j))))) LOW] \<and>
              (\<forall>e\<in>set pre. \<not> is_pin_write e) \<and> (\<forall>e\<in>set cols. is_column_write e))"
proof -
  define m0 where "m0 = g0\<lparr>num_rows := R, num_cols := C, ARRAY_ROWS := R, ARRAY_COLS := C,
                           NUM_COLORS := K, MATRIX := mem\<rparr>"
  define m where "m = m0\<lparr>SR_PINS := sr_pins,
                 ISR_FREQ := (ISR_FREQ m0)(0 := base, 1 := push_bit 1 base,
                                           2 := push_bit 2 base, 3 := push_bit 3 base)\<rparr>"
  define tr0 where "tr0 = begin_events h m0 sr_pins base"
  define frame where "frame = map (\<lambda>j. (frame_state (unat R) j, isr_events h m (frame_state (unat R) j))) [0..<n]"
  have dims: "ARRAY_ROWS m = R" "ARRAY_COLS m = C" "NUM_COLORS m = K" "num_rows m0 = R"
    by (simp_all add: m_def m0_def)
  have R255: "R < 255" using assms(2) by (simp add: word_le_nat_alt word_less_nat_alt)
  have ctor: "DirectMatrix_ctor g0 (Some mem) R C K = Some m0"
    by (simp add: DirectMatrix_ctor_def m0_def)
  have beg: "DirectMatrix_begin h m0 sr_pins base = Some (tr0, m)"
    using begin_returns[of m0 h sr_pins base] R255 dims(4) by (simp add: m_def tr0_def)
  have high: "\<forall>r<unat R. DigitalWrite (ROW_PIN (int r)) HIGH \<in> set tr0"
    using begin_events_rows_high[of _ m0 h sr_pins base] by (simp add: tr0_def dims)
  have quiet: "row_enables tr0 = []"
    unfolding tr0_def by (rule row_enables_quiet) (rule begin_events_quiet)
  have run: "run_ISR h m n isr_init = Some (frame, frame_state (unat R) n)"
    using run_ISR_from_init[of m h n] assms by (simp add: dims frame_def)
  have len: "length frame = n" by (simp add: frame_def)
  have b: "fold rows_low tr0 {} = {} \<and> exclusive {} tr0"
    unfolding tr0_def by (rule quiet_trace) (rule begin_events_quiet)
  have f: "exclusive {} (concat (map snd frame))"
    using frame_exclusive[of m "{}" 0 h n] assms(1,2) by (simp add: dims frame_def o_def)
  have ex: "exclusive {} (tr0 @ concat (map snd frame))"
    using b f by (simp add: exclusive_append)
  have ord: "\<forall>j<n. \<exists>pre cols.
              snd (frame ! j) =
                pre @ [DigitalWrite (ROW_PIN ((uint (row (fst (frame ! j))) - 1) mod uint R)) HIGH]
                    @ cols
                    @ [DigitalWrite (ROW_PIN (uint (row (fst (frame ! j))))) LOW] \<and>
              (\<forall>e\<in>set pre. \<not> is_pin_write e) \<and> (\<forall>e\<in>set cols. is_column_write e)"
  proof (intro allI impI)
    fix j assume "j < n"
    then have fj: "frame ! j = (frame_state (unat R) j, isr_events h m (frame_state (unat R) j))"
      by (simp add: frame_def)
    show "\<exists>pre cols.
              snd (frame ! j) =
                pre @ [DigitalWrite (ROW_PIN ((uint (row (fst (frame ! j))) - 1) mod uint R)) HIGH]
                    @ cols
                    @ [DigitalWrite (ROW_PIN (uint (row (fst (frame ! j))))) LOW] \<and>
              (\<forall>e\<in>set pre. \<not> is_pin_write e) \<and> (\<forall>e\<in>set cols. is_column_write e)"
      unfolding fj fst_conv snd_conv
      using isr_events_ordered[of m h j] assms(1,2) by (simp only: dims)
  qed
  show ?thesis
    apply (intro exI conjI)
           apply (rule ctor)
          apply (rule beg)
         apply (rule high)
        apply (rule quiet)
       apply (rule run)
      apply (rule len)
     apply (rule ex)
    apply (rule ord)
    done
qed

text \<open>
  The same on an 8x8 matrix with 3 colours and 20 invocations.
\<close>

theorem row_exclusivity_witness:
  "(0::8 word) < 8 \<and> (8::8 word) \<le> 128 \<and> (8::8 word) \<le> 127 \<and> (3::8 word) \<le> 127 \<and>
   (\<forall>g0 mem h sr_pins base. \<exists>m0 tr0 m frame s.
      DirectMatrix_ctor g0 (Some mem) 8 8 3 = Some m0 \<and>
      DirectMatrix_begin h m0 sr_pins base = Some (tr0, m) \<and>
      DigitalWrite (ROW_PIN 7) HIGH \<in> set tr0 \<and>
      run_ISR h m 20 isr_init = Some (frame, s) \<and>
      exclusive {} (tr0 @ concat (map snd frame)))"
proof -
  have "\<exists>m0 tr0 m frame s.
      DirectMatrix_ctor g0 (Some mem) 8 8 3 = Some m0 \<and>
      DirectMatrix_begin h m0 sr_pins base = Some (tr0, m) \<and>
      DigitalWrite (ROW_PIN 7) HIGH \<in> set tr0 \<and>
      run_ISR h m 20 isr_init = Some (frame, s) \<and>
      exclusive {} (tr0 @ concat (map snd frame))" for g0 mem h sr_pins base
  proof -
    from row_exclusivity[of 8 8 3 g0 mem h sr_pins base 20]
    obtain m0 tr0 m frame s where
      f: "DirectMatrix_ctor g0 (Some mem) 8 8 3 = Some m0"
         "DirectMatrix_begin h m0 sr_pins base = Some (tr0, m)"
         "\<forall>r<unat (8::8 word). DigitalWrite (ROW_PIN (int r)) HIGH \<in> set tr0"
         "run_ISR h m 20 isr_init = Some (frame, s)"
         "exclusive {} (tr0 @ concat (map snd frame))"
      by auto
    have "DigitalWrite (ROW_PIN (int 7)) HIGH \<in> set tr0"
      using f(3)[rule_format, of 7] by simp
    then have "DigitalWrite (ROW_PIN 7) HIGH \<in> set tr0" by simp
    with f(1,2,4,5) show ?thesis by blast
  qed
  then show ?thesis by simp
qed

section \<open>Where the interrupt does not return\<close>

text \<open>
  The column loops count with a signed byte, which never exceeds 127: from 128
  columns on the loop condition stays true and an invocation with at least one colour
  does not return. Hence the bound on the columns in the statements about the
  interrupt.
\<close>

lemma sint8_le_127: "sint (w :: 8 word) \<le> 127"
  using sint_lt[of w] by simp

lemma direct_cols_returns_bound:
  assumes "direct_cols g s off ps col out = Some r"
  shows "ARRAY_COLS g < 128"
proof (rule direct_cols.raw_induct[where P = "\<lambda>g _ _ _ _ _ _. ARRAY_COLS g < 128", OF _ assms])
  fix loop :: "DirectMatrix \<Rightarrow> isr_static \<Rightarrow> 8 word \<Rightarrow> 16 word \<Rightarrow> 8 word \<Rightarrow> event list \<Rightarrow> event list option"
    and g s off ps col out r
  assume IH: "\<And>g s off ps col out r. loop g s off ps col out = Some r \<Longrightarrow> ARRAY_COLS g < 128"
    and step: "(if sint col \<le> uint (ARRAY_COLS g) - 1 then
        loop g s off ps (col + 1)
          (out @ [DigitalWrite (COL_PIN (sint col + sint off)) (cell_level g s ps (sint col))])
      else Some out) = Some r"
  show "ARRAY_COLS g < 128"
  proof (cases "sint col \<le> uint (ARRAY_COLS g) - 1")
    case True
    with step IH show ?thesis by simp
  next
    case False
    then have "uint (ARRAY_COLS g) < 128" using sint8_le_127[of col] by linarith
    then show ?thesis by (simp add: word_less_def)
  qed
qed

lemma sr_cols_returns_bound:
  assumes "sr_cols h g s ps col out = Some r"
  shows "ARRAY_COLS g < 128"
proof (rule sr_cols.raw_induct[where P = "\<lambda>_ g _ _ _ _ _. ARRAY_COLS g < 128", OF _ assms])
  fix loop :: "LED_Matrix_h \<Rightarrow> DirectMatrix \<Rightarrow> isr_static \<Rightarrow> 16 word \<Rightarrow> 8 word \<Rightarrow> event list \<Rightarrow> event list option"
    and h g s ps col out r
  assume IH: "\<And>h g s ps col out r. loop h g s ps col out = Some r \<Longrightarrow> ARRAY_COLS g < 128"
    and step: "(if sint col \<le> uint (ARRAY_COLS g) - 1 then
        loop h g s ps (col + 1)
          (out @ [DigitalWrite (SR_PIN (CLK h)) LOW,
                  DigitalWrite (SR_PIN (DATA h)) (cell_level g s ps (sint col)),
                  DigitalWrite (SR_PIN (CLK h)) HIGH])
      else Some out) = Some r"
  show "ARRAY_COLS g < 128"
  proof (cases "sint col \<le> uint (ARRAY_COLS g) - 1")
    case True
    with step IH show ?thesis by simp
  next
    case False
    then have "uint (ARRAY_COLS g) < 128" using sint8_le_127[of col] by linarith
    then show ?thesis by (simp add: word_less_def)
  qed
qed

lemma RefreshPWMLine_never_returns:
  assumes "128 \<le> ARRAY_COLS g" and "NUM_COLORS g \<noteq> 0"
  shows "DirectMatrix_RefreshPWMLine h g s = None"
proof -
  have d: "direct_cols g s off ps col out = None" for off ps col out
    using direct_cols_returns_bound[of g s off ps col out] assms(1)
    by (cases "direct_cols g s off ps col out") auto
  have r: "sr_cols h g s ps col out = None" for ps col out
    using sr_cols_returns_bound[of h g s ps col out] assms(1)
    by (cases "sr_cols h g s ps col out") auto
  have "uint (NUM_COLORS g) \<noteq> 0" using assms(2) by (simp add: uint_0_iff)
  then have "0 < uint (NUM_COLORS g)" using uint_ge_0[of "NUM_COLORS g"] by linarith
  then have "color_loop h g s 0 off ps out = None" for off ps out
    by (subst color_loop.simps) (simp add: d r)
  then show ?thesis by (simp add: DirectMatrix_RefreshPWMLine_def split: prod.splits)
qed

section \<open>The column offset past 127\<close>

lemma writes_to_direct_events:
  "writes_to (COL_PIN k) (map (direct_events g s off ps) [0..<n]) =
     (if sint off \<le> k \<and> k < sint off + int n then [cell_level g s ps (int (nat (k - sint off)))] else [])"
proof -
  have de: "direct_events g s off ps = (\<lambda>c. DigitalWrite (COL_PIN (int c + sint off)) (cell_level g s ps (int c)))"
    by (rule ext) (simp add: direct_events_def)
  show ?thesis unfolding de by (rule writes_to_direct_row)
qed

text \<open>
  C2 fails on the code for four direct colour planes of 43 columns:
  \<^verbatim>\<open>col_pin_offset\<close> is a signed byte, and \<open>43 + 43 + 43 = 129\<close> becomes \<open>-127\<close>. The
  first invocation returns; cell (0, 0) has the bit of plane 3 under the mask set;
  the column pin \<open>3 * C + 0 = 129\<close> of plane 3 gets no write at all, and the HIGH goes
  to index \<open>-127\<close> of the column pin table, in front of the table.
\<close>

theorem col_pin_offset_wraps_at_4x43:
  "\<exists>m0 tr m out s.
      DirectMatrix_ctor g0 (Some (\<lambda>k. 0x1000)) 8 43 4 = Some m0 \<and>
      DirectMatrix_begin (h\<lparr>DINV := 255\<rparr>) m0 (\<lambda>k. 255) base = Some (tr, m) \<and>
      DirectMatrix_RefreshPWMLine (h\<lparr>DINV := 255\<rparr>) m isr_init = Some (out, s) \<and>
      SR_PINS m 3 = DINV (h\<lparr>DINV := 255\<rparr>) \<and>
      3 * uint (ARRAY_COLS m) + 0 = 129 \<and>
      MATRIX m (uint (row isr_init) * uint (ARRAY_COLS m) + 0) AND push_bit (4 * 3) (ucast (pwm isr_init)) \<noteq> 0 \<and>
      writes_to (COL_PIN (3 * uint (ARRAY_COLS m) + 0)) out = [] \<and>
      writes_to (COL_PIN (- 127)) out = [HIGH]"
proof -
  define m0 where "m0 = g0\<lparr>num_rows := 8, num_cols := 43, ARRAY_ROWS := 8, ARRAY_COLS := 43,
                           NUM_COLORS := 4, MATRIX := (\<lambda>k. 0x1000)\<rparr>"
  define m where "m = m0\<lparr>SR_PINS := (\<lambda>k. 255),
                 ISR_FREQ := (ISR_FREQ m0)(0 := base, 1 := push_bit 1 base,
                                           2 := push_bit 2 base, 3 := push_bit 3 base)\<rparr>"
  let ?h = "h\<lparr>DINV := 255\<rparr>"
  have ctor: "DirectMatrix_ctor g0 (Some (\<lambda>k. 0x1000)) 8 43 4 = Some m0"
    by (simp add: DirectMatrix_ctor_def m0_def)
  have beg: "DirectMatrix_begin ?h m0 (\<lambda>k. 255) base = Some (begin_events ?h m0 (\<lambda>k. 255) base, m)"
    using begin_returns[of m0 ?h "\<lambda>k. 255" base] by (simp add: m_def m0_def)
  have isr: "DirectMatrix_RefreshPWMLine ?h m isr_init = Some (isr_events ?h m isr_init, isr_advance m isr_init)"
    by (rule RefreshPWMLine_returns) (simp_all add: m_def m0_def)
  have cell: "MATRIX m (uint (row isr_init) * uint (ARRAY_COLS m) + 0) AND push_bit (4 * 3) (ucast (pwm isr_init)) \<noteq> 0"
    by (simp add: m_def m0_def isr_init_def)
  have dims: "NUM_COLORS m = 4" "ARRAY_COLS m = 43" "SR_PINS m = (\<lambda>k. 255)" "MATRIX m = (\<lambda>k. 0x1000)"
    by (simp_all add: m_def m0_def)
  have w: "writes_to (COL_PIN k) (isr_events ?h m isr_init) =
      concat (map (\<lambda>j. writes_to (COL_PIN k) (plane_events ?h m isr_init j)) [0, 1, 2, Suc 2])" for k
    by (simp add: isr_events_def writes_to_append writes_to_concat o_def dims upt_4 del: upt_Suc)
       (simp add: writes_to_def)
  have pl: "plane_events ?h m isr_init j =
      map (direct_events m isr_init (of_nat j * 43) (push_bit (4 * j) (ucast (pwm isr_init)))) [0..<43]" for j
    by (simp add: plane_events_def dims)
  have w129: "writes_to (COL_PIN (3 * uint (ARRAY_COLS m) + 0)) (isr_events ?h m isr_init) = []"
    unfolding w pl by (simp add: writes_to_direct_events dims)
  have w127: "writes_to (COL_PIN (- 127)) (isr_events ?h m isr_init) = [HIGH]"
    unfolding w pl by (simp add: writes_to_direct_events dims cell_level_def isr_init_def)
  have sr: "SR_PINS m 3 = DINV ?h" by (simp add: dims)
  have idx: "3 * uint (ARRAY_COLS m) + 0 = 129" by (simp add: dims)
  show ?thesis
    apply (intro exI conjI)
           apply (rule ctor)
          apply (rule beg)
         apply (rule isr)
        apply (rule sr)
       apply (rule idx)
      apply (rule cell)
     apply (rule w129)
    apply (rule w127)
    done
qed

section \<open>The previous row past 128 rows\<close>

text \<open>
  The rows left enabled by an invocation, whatever \<^verbatim>\<open>oldrow\<close> is.
\<close>

lemma column_fold:
  assumes "\<And>e. e \<in> set xs \<Longrightarrow> is_column_write e"
  shows "fold rows_low xs low = low"
  using assms by (induction xs arbitrary: low) (auto simp: column_rows_low)

lemma fold_isr_events:
  "fold rows_low (isr_events h g s) low =
     insert (uint (row s)) (low - {sint (if row s = 0 then ARRAY_ROWS g - 1 else row s - 1)})"
proof -
  have cols: "fold rows_low (concat (map (plane_events h g s) [0..<unat (NUM_COLORS g)])) low' = low'" for low'
    by (rule column_fold) (auto dest: plane_events_column)
  show ?thesis
    unfolding isr_events_def by (simp add: cols)
qed

lemma first_pass_129:
  assumes "ARRAY_ROWS g = 129" and "j \<le> 128"
  shows "fold rows_low (concat (map (\<lambda>i. isr_events h g (frame_state 129 i)) [0..<Suc j])) {} = {int j}"
  using assms(2)
proof (induction j)
  case 0
  show ?case by (simp add: fold_isr_events frame_state_def assms(1))
next
  case (Suc j)
  then have j: "j \<le> 127" by simp
  have IH: "fold rows_low (concat (map (\<lambda>i. isr_events h g (frame_state 129 i)) [0..<Suc j])) {} = {int j}"
    using Suc by simp
  have r: "row (frame_state 129 (Suc j)) = of_nat (Suc j)" using j by (simp add: frame_state_def)
  have "Suc j < 256" using j by simp
  then have nz: "(of_nat (Suc j) :: 8 word) \<noteq> 0"
    using of_nat8_eq_0[of "Suc j"] by simp
  have u: "uint (of_nat (Suc j) :: 8 word) = int (Suc j)"
    using j by (intro uint_of_nat_small) simp
  have "(of_nat (Suc j) :: 8 word) - 1 = of_nat j" by simp
  then have old: "sint ((of_nat (Suc j) :: 8 word) - 1) = int j"
    using sint_of_nat8[OF j] by simp
  have step: "fold rows_low (isr_events h g (frame_state 129 (Suc j))) {int j} = {int (Suc j)}"
    unfolding fold_isr_events r using nz u old by (simp only: if_False) simp
  have "[0..<Suc (Suc j)] = [0..<Suc j] @ [Suc j]" by simp
  then show ?case
    by (simp only: map_append concat_append fold_append o_apply IH list.map concat.simps append_Nil2 step)
qed


lemma not_exclusive_isr_events:
  assumes "\<not> card (insert (uint (row s))
              (low - {sint (if row s = 0 then ARRAY_ROWS g - 1 else row s - 1)})) \<le> 1"
  shows "\<not> exclusive low (isr_events h g s)"
proof -
  have cols: "fold rows_low (concat (map (plane_events h g s) [0..<unat (NUM_COLORS g)])) low' = low'" for low'
    by (rule column_fold) (auto dest: plane_events_column)
  show ?thesis
    unfolding isr_events_def using assms
    by (auto simp add: exclusive_append cols split: if_splits)
qed

text \<open>
  C5 fails on the code for a matrix of 129 rows: \<^verbatim>\<open>oldrow\<close> is a signed byte, and
  \<open>129 - 1 = 128\<close> becomes \<open>-128\<close>. \<^verbatim>\<open>begin\<close> and the 130 invocations return; the
  invocation that starts the second pass (row 0) writes HIGH to index \<open>-128\<close> of the
  row pin table and not to row 128, which the invocation before had enabled; at its
  end rows 0 and 128 are both at the enabled level.
\<close>

theorem row_128_stays_enabled_at_129_rows:
  "\<exists>m0 tr0 m frame s.
      DirectMatrix_ctor g0 (Some mem) 129 8 1 = Some m0 \<and>
      DirectMatrix_begin h m0 sr_pins base = Some (tr0, m) \<and>
      run_ISR h m 130 isr_init = Some (frame, s) \<and>
      row (fst (frame ! 129)) = 0 \<and>
      DigitalWrite (ROW_PIN (- 128)) HIGH \<in> set (snd (frame ! 129)) \<and>
      DigitalWrite (ROW_PIN 128) HIGH \<notin> set (snd (frame ! 129)) \<and>
      fold rows_low (tr0 @ concat (map snd frame)) {} = {0, 128} \<and>
      \<not> exclusive {} (tr0 @ concat (map snd frame))"
proof -
  define m0 where "m0 = g0\<lparr>num_rows := 129, num_cols := 8, ARRAY_ROWS := 129, ARRAY_COLS := 8,
                           NUM_COLORS := 1, MATRIX := mem\<rparr>"
  define m where "m = m0\<lparr>SR_PINS := sr_pins,
                 ISR_FREQ := (ISR_FREQ m0)(0 := base, 1 := push_bit 1 base,
                                           2 := push_bit 2 base, 3 := push_bit 3 base)\<rparr>"
  define tr0 where "tr0 = begin_events h m0 sr_pins base"
  define ev where "ev = (\<lambda>j. isr_events h m (frame_state 129 j))"
  define frame where "frame = map (\<lambda>j. (frame_state 129 j, ev j)) [0..<130]"
  have dims: "ARRAY_ROWS m = 129" "ARRAY_COLS m = 8" "NUM_COLORS m = 1" "num_rows m0 = 129"
    by (simp_all add: m_def m0_def)
  have ctor: "DirectMatrix_ctor g0 (Some mem) 129 8 1 = Some m0"
    by (simp add: DirectMatrix_ctor_def m0_def)
  have beg: "DirectMatrix_begin h m0 sr_pins base = Some (tr0, m)"
    using begin_returns[of m0 h sr_pins base] dims(4) by (simp add: m_def tr0_def)
  have run: "run_ISR h m 130 isr_init = Some (frame, frame_state 129 130)"
    using run_ISR_from_init[of m h 130] by (simp add: dims frame_def ev_def)
  have f129: "frame ! 129 = (frame_state 129 129, ev 129)" by (simp add: frame_def)
  have s129: "frame_state 129 129 = \<lparr>row = 0, pwm = 2, isr_freq_offset = 1\<rparr>"
    by (simp add: frame_state_def)
  have r0: "row (fst (frame ! 129)) = 0" by (simp add: f129 s129)
  have blank: "DigitalWrite (ROW_PIN (- 128)) HIGH \<in> set (snd (frame ! 129))"
    by (simp add: f129 ev_def s129 isr_events_def dims)
  have noblank: "DigitalWrite (ROW_PIN 128) HIGH \<notin> set (snd (frame ! 129))"
    by (auto simp: f129 ev_def s129 isr_events_def dims dest: plane_events_column)
  have tr: "concat (map snd frame) = concat (map ev [0..<129]) @ ev 129"
  proof -
    have "[0..<Suc 129] = [0..<129] @ [129]" by (rule upt_Suc_append) simp
    then have "[0..<130] = [0..<129] @ [129]" by simp
    then show ?thesis by (simp add: frame_def o_def)
  qed
  have b: "fold rows_low tr0 {} = {} \<and> exclusive {} tr0"
    unfolding tr0_def by (rule quiet_trace) (rule begin_events_quiet)
  have p1: "fold rows_low (concat (map ev [0..<129])) {} = {128}"
    using first_pass_129[of m 128 h] by (simp add: dims ev_def)
  have last: "fold rows_low (ev 129) {128} = {0, 128}"
    by (simp add: ev_def fold_isr_events s129 dims)
  have fold: "fold rows_low (tr0 @ concat (map snd frame)) {} = {0, 128}"
    by (simp add: tr b p1 last)
  have "\<not> exclusive {128} (ev 129)"
    unfolding ev_def by (rule not_exclusive_isr_events) (simp add: s129 dims)
  then have nex: "\<not> exclusive {} (tr0 @ concat (map snd frame))"
    by (simp add: tr exclusive_append b p1)
  show ?thesis
    apply (intro exI conjI)
           apply (rule ctor)
          apply (rule beg)
         apply (rule run)
        apply (rule r0)
       apply (rule blank)
      apply (rule noblank)
     apply (rule fold)
    apply (rule nex)
    done
qed

end
